theory Spec2Isabelle
  imports Main "HOL-Library.Word"
begin

unbundle bit_operations_syntax

section \<open>Memory model\<close>

text \<open>
  A buffer is a list of bytes and a pointer into it is an index; \<open>None\<close> is the NULL
  pointer. The C code never checks a read against the end of the buffer by itself, so
  every access is written out: an access outside the buffer is undefined behaviour in C
  and the model stops with \<open>OutOfBounds\<close>. A failed \<open>assert\<close> stops with
  \<open>AssertFailed\<close>, an overflow of a signed \<open>int\<close> with \<open>IntOverflow\<close>. \<open>EBADMSG\<close> and \<open>ENOSPC\<close> are the negative return codes.
\<close>

type_synonym byte = "8 word"

datatype error = EBADMSG | ENOSPC | OutOfBounds | AssertFailed | IntOverflow

definition rd :: "byte list \<Rightarrow> nat \<Rightarrow> error + byte" where
  "rd buf i = (if i < length buf then Inr (buf ! i) else Inl OutOfBounds)"

text \<open>\<open>memcpy\<close> out of the buffer: \<open>n\<close> bytes starting at index \<open>i\<close>.\<close>

definition rd_bytes :: "byte list \<Rightarrow> nat \<Rightarrow> nat \<Rightarrow> error + byte list" where
  "rd_bytes buf i n =
     (if n = 0 then Inr []
      else if i + n \<le> length buf then Inr (take n (drop i buf))
      else Inl OutOfBounds)"

text \<open>A big-endian byte string read as a 32-bit value (\<open>ntohl\<close>, \<open>ntohs\<close>).\<close>

definition be_val :: "byte list \<Rightarrow> 32 word" where
  "be_val bs = foldl (\<lambda>a b. push_bit 8 a OR ucast b) 0 bs"

section \<open>Option TLV codec\<close>

text \<open>
  \<open>_decode_value(val, &pkt_pos, pkt_end)\<close>: the result is the decoded value and the
  new position. \<open>left = pkt_end - pkt_pos\<close> is a \<open>size_t\<close>: when \<open>pkt_pos\<close> is past
  \<open>pkt_end\<close> it wraps to a large value, so \<open>left < n\<close> is false there.
\<close>

definition left_lt :: "nat \<Rightarrow> nat \<Rightarrow> nat \<Rightarrow> bool" where
  "left_lt pkt_end pkt_pos n = (pkt_pos \<le> pkt_end \<and> pkt_end - pkt_pos < n)"

definition decode_value :: "nat \<Rightarrow> byte list \<Rightarrow> nat \<Rightarrow> nat \<Rightarrow> error + (nat \<times> nat)" where
  "decode_value val buf pkt_pos pkt_end =
     (if val = 13 then
        (if left_lt pkt_end pkt_pos 1 then Inl ENOSPC
         else case rd buf pkt_pos of
                Inl e \<Rightarrow> Inl e
              | Inr d \<Rightarrow> Inr (unat d + 13, pkt_pos + 1))
      else if val = 14 then
        (if left_lt pkt_end pkt_pos 2 then Inl ENOSPC
         else case rd_bytes buf pkt_pos 2 of
                Inl e \<Rightarrow> Inl e
              | Inr ds \<Rightarrow> Inr (unat (be_val ds) + 269, pkt_pos + 2))
      else if val = 15 then Inl EBADMSG
      else Inr (val, pkt_pos))"

text \<open>
  \<open>_decode_uint(pkt_pos, nbytes)\<close>: \<open>assert(nbytes <= 4)\<close>, then the bytes are copied to
  the low end of a zeroed 32-bit value in network order.
\<close>

definition decode_uint :: "byte list \<Rightarrow> nat \<Rightarrow> nat \<Rightarrow> error + 32 word" where
  "decode_uint buf pkt_pos nbytes =
     (if 4 < nbytes then Inl AssertFailed
      else case rd_bytes buf pkt_pos nbytes of
             Inl e \<Rightarrow> Inl e
           | Inr bs \<Rightarrow> Inr (be_val bs))"

text \<open>
  \<open>_put_odelta(buf, lastonum, onum, olen)\<close> on \<open>unsigned\<close> (32-bit) arguments. The
  result is the list of bytes written at \<open>buf\<close>; the C return value is its length.
  \<open>htons\<close> followed by \<open>memcpy\<close> stores the 16-bit value high byte first.
\<close>

definition put_odelta :: "32 word \<Rightarrow> 32 word \<Rightarrow> 32 word \<Rightarrow> byte list" where
  "put_odelta lastonum onum olen =
     (let delta = onum - lastonum in
      if delta < 13 then [ucast (push_bit 4 delta OR olen)]
      else if delta = 13 then [ucast (push_bit 4 13 OR olen), ucast (delta - 13)]
      else (let tmp = (ucast (delta - 269) :: 16 word)
            in [ucast (push_bit 4 14 OR olen), ucast (drop_bit 8 tmp), ucast tmp]))"

text \<open>
  \<open>coap_put_option(buf, lastonum, onum, odata, olen)\<close>: the value is the byte list
  \<open>odata\<close> and \<open>olen\<close> its length, converted to \<open>unsigned\<close> for \<open>_put_odelta\<close>.
\<close>

definition coap_put_option :: "16 word \<Rightarrow> 16 word \<Rightarrow> byte list \<Rightarrow> error + byte list" where
  "coap_put_option lastonum onum odata =
     (if \<not> lastonum \<le> onum then Inl AssertFailed
      else Inr (put_odelta (ucast lastonum) (ucast onum) (word_of_nat (length odata)) @ odata))"

text \<open>
  The decoder's side of one option header, as \<open>coap_parse\<close> runs it after it has read
  \<open>option_byte\<close> and found it different from the payload marker: the delta from the
  high nibble, then the length from the low nibble. Every negative result of
  \<open>_decode_value\<close> becomes \<open>-EBADMSG\<close>.
\<close>

definition as_badmsg :: "error \<Rightarrow> error" where
  "as_badmsg e = (if e = OutOfBounds then OutOfBounds else EBADMSG)"

definition decode_opt_hdr :: "byte list \<Rightarrow> nat \<Rightarrow> nat \<Rightarrow> byte \<Rightarrow> error + (nat \<times> nat \<times> nat)" where
  "decode_opt_hdr buf pkt_pos pkt_end option_byte =
     (case decode_value (unat (drop_bit 4 option_byte)) buf pkt_pos pkt_end of
        Inl e \<Rightarrow> Inl (as_badmsg e)
      | Inr (option_delta, p1) \<Rightarrow>
          (case decode_value (unat (option_byte AND 0xf)) buf p1 pkt_end of
             Inl e \<Rightarrow> Inl (as_badmsg e)
           | Inr (option_len, p2) \<Rightarrow> Inr (option_delta, option_len, p2)))"

text \<open>
  Reading back the header of an option that starts at index 0 of \<open>buf\<close>: the delta
  and the length the decoder sees.
\<close>

definition decode_first_hdr :: "byte list \<Rightarrow> error + (nat \<times> nat)" where
  "decode_first_hdr buf =
     (case rd buf 0 of
        Inl e \<Rightarrow> Inl e
      | Inr option_byte \<Rightarrow>
          (case decode_opt_hdr buf 1 (length buf) option_byte of
             Inl e \<Rightarrow> Inl e
           | Inr (option_delta, option_len, p) \<Rightarrow> Inr (option_delta, option_len)))"

definition encode_then_decode :: "16 word \<Rightarrow> 16 word \<Rightarrow> byte list \<Rightarrow> error + (nat \<times> nat)" where
  "encode_then_decode lastonum onum odata =
     (case coap_put_option lastonum onum odata of
        Inl e \<Rightarrow> Inl e
      | Inr bs \<Rightarrow> decode_first_hdr bs)"

section \<open>Option scanner\<close>

text \<open>
  \<open>coap_opt_t\<close>: the fields \<open>delta\<close> and \<open>len\<close> are 16-bit (\<open>_decode_optlen\<close> takes
  them by \<open>uint16_t *\<close>), \<open>val\<close> points at the value bytes.
\<close>

record coap_opt =
  opt_delta :: "16 word"
  opt_len :: "16 word"
  opt_val :: nat

text \<open>
  \<open>_decode_optlen(buf, val)\<close>: the number of extension bytes and the new \<open>*val\<close>.
  There is no bound on the read. The sum \<open>htons(*val) + 269\<close> is stored back to
  16 bits.
\<close>

definition decode_optlen :: "byte list \<Rightarrow> nat \<Rightarrow> 16 word \<Rightarrow> error + (nat \<times> 16 word)" where
  "decode_optlen buf pos v =
     (if v = 13 then
        (case rd buf pos of Inl e \<Rightarrow> Inl e | Inr b \<Rightarrow> Inr (1, v + ucast b))
      else if v = 14 then
        (case rd_bytes buf pos 2 of
           Inl e \<Rightarrow> Inl e
         | Inr bs \<Rightarrow> Inr (2, ucast (be_val bs) + 269))
      else Inr (0, v))"

text \<open>
  \<open>_parse_opt(optpos, opt)\<close>: \<open>None\<close> is the return value -1, \<open>Some n\<close> the size of
  the whole option.
\<close>

definition parse_opt :: "byte list \<Rightarrow> nat \<Rightarrow> coap_opt \<Rightarrow> error + (nat option \<times> coap_opt)" where
  "parse_opt buf optpos opt =
     (case rd buf optpos of
        Inl e \<Rightarrow> Inl e
      | Inr b \<Rightarrow>
          (let opt1 = opt\<lparr>opt_delta := ucast (drop_bit 4 (b AND 0xf0)),
                          opt_len := ucast (b AND 0x0f),
                          opt_val := optpos + 1\<rparr>
           in if opt_delta opt1 = 15 \<or> opt_len opt1 = 15 then Inr (None, opt1)
              else
                (case decode_optlen buf (opt_val opt1) (opt_delta opt1) of
                   Inl e \<Rightarrow> Inl e
                 | Inr (n1, d) \<Rightarrow>
                     (let opt2 = opt1\<lparr>opt_delta := d, opt_val := opt_val opt1 + n1\<rparr>
                      in case decode_optlen buf (opt_val opt2) (opt_len opt2) of
                           Inl e \<Rightarrow> Inl e
                         | Inr (n2, l) \<Rightarrow>
                             (let opt3 = opt2\<lparr>opt_len := l, opt_val := opt_val opt2 + n2\<rparr>
                              in Inr (Some ((opt_val opt3 - optpos) + unat (opt_len opt3)),
                                      opt3))))))"

text \<open>\<open>bufpos >= payload_pos\<close>; a NULL \<open>payload_pos\<close> is below every buffer address.\<close>

definition ptr_ge :: "nat \<Rightarrow> nat option \<Rightarrow> bool" where
  "ptr_ge bufpos payload_pos = (case payload_pos of None \<Rightarrow> True | Some p \<Rightarrow> p \<le> bufpos)"

lemma parse_opt_size:
  "parse_opt buf optpos opt = Inr (Some n, opt') \<Longrightarrow> 0 < n"
  by (auto simp: parse_opt_def Let_def split: sum.splits if_splits prod.splits)

text \<open>
  The \<open>do ... while (delta < optnum)\<close> loop of \<open>coap_find_option\<close> together with the
  test after it. The result is the returned pointer and the final content of \<open>*opt\<close>.
\<close>

function find_loop ::
  "byte list \<Rightarrow> nat option \<Rightarrow> nat \<Rightarrow> coap_opt \<Rightarrow> 16 word \<Rightarrow> 16 word
     \<Rightarrow> error + (nat option \<times> coap_opt)" where
  "find_loop buf payload_pos bufpos opt delta optnum =
     (if ptr_ge bufpos payload_pos then Inr (None, opt)
      else
        (case parse_opt buf bufpos opt of
           Inl e \<Rightarrow> Inl e
         | Inr (None, opt') \<Rightarrow> Inr (None, opt')
         | Inr (Some res, opt') \<Rightarrow>
             (if delta + opt_delta opt' < optnum
              then find_loop buf payload_pos (bufpos + res) opt' (delta + opt_delta opt') optnum
              else if delta + opt_delta opt' \<noteq> optnum then Inr (None, opt')
              else Inr (Some (bufpos + res), opt'))))"
  by pat_completeness auto
termination
proof (relation "measure (\<lambda>(buf, payload_pos, bufpos, opt, delta, optnum).
                   (case payload_pos of None \<Rightarrow> 0 | Some p \<Rightarrow> p - bufpos))")
  show "wf (measure (\<lambda>(buf, payload_pos, bufpos, opt, delta, optnum).
                   (case payload_pos of None \<Rightarrow> 0 | Some p \<Rightarrow> p - bufpos)))"
    by simp
next
  fix buf :: "byte list" and payload_pos bufpos opt and delta optnum :: "16 word"
    and x2 x1 opt' res
  assume "\<not> ptr_ge bufpos payload_pos"
    and "parse_opt buf bufpos opt = Inr x2" and "(x1, opt') = x2" and "x1 = Some res"
  then have "0 < res" and "\<exists>p. payload_pos = Some p \<and> bufpos < p"
    using parse_opt_size [of buf bufpos opt res opt']
    by (auto simp: ptr_ge_def split: option.splits)
  then show "((buf, payload_pos, bufpos + res, opt', delta + opt_delta opt', optnum),
              (buf, payload_pos, bufpos, opt, delta, optnum))
             \<in> measure (\<lambda>(buf, payload_pos, bufpos, opt, delta, optnum).
                   (case payload_pos of None \<Rightarrow> 0 | Some p \<Rightarrow> p - bufpos))"
    by auto
qed

declare find_loop.simps [simp del]

definition coap_find_option ::
  "byte list \<Rightarrow> nat option \<Rightarrow> nat option \<Rightarrow> coap_opt \<Rightarrow> 16 word
     \<Rightarrow> error + (nat option \<times> coap_opt)" where
  "coap_find_option buf payload_pos bufpos opt optnum =
     (case bufpos of
        None \<Rightarrow> Inr (None, opt)
      | Some p \<Rightarrow>
          (case rd buf p of
             Inl e \<Rightarrow> Inl e
           | Inr b \<Rightarrow>
               if b = 0xff then Inr (None, opt)
               else find_loop buf payload_pos p opt 0 optnum))"


section \<open>Constants of \<open>nanocoap.h\<close>\<close>

text \<open>
  Modelled from the spec: the header \<open>nanocoap.h\<close> is not among the sources. The option
  numbers are those the spec lists (URI_PATH 11, CONTENT_FORMAT 12, OBSERVE 6,
  BLOCK2 23); in a Block2 value NUM is above bit 3, MORE is bit 3 and SZX the low 3 bits.
\<close>

definition COAP_OPT_OBSERVE :: nat where "COAP_OPT_OBSERVE = 6"
definition COAP_OPT_URI_PATH :: nat where "COAP_OPT_URI_PATH = 11"
definition COAP_OPT_CONTENT_FORMAT :: nat where "COAP_OPT_CONTENT_FORMAT = 12"
definition COAP_OPT_BLOCK2 :: nat where "COAP_OPT_BLOCK2 = 23"
definition COAP_BLOCKWISE_NUM_OFF :: nat where "COAP_BLOCKWISE_NUM_OFF = 4"
definition COAP_BLOCKWISE_MORE_OFF :: nat where "COAP_BLOCKWISE_MORE_OFF = 3"
definition COAP_BLOCKWISE_SZX_MASK :: "32 word" where "COAP_BLOCKWISE_SZX_MASK = 0x07"

text \<open>
  Modelled from the spec: \<open>coap_get_token_len\<close> is an inline function of the missing
  header; TKL is the low 4 bits of the first header byte (\<open>ver_t_tkl\<close>).
\<close>

definition coap_get_token_len :: "byte list \<Rightarrow> error + nat" where
  "coap_get_token_len buf =
     (case rd buf 0 of Inl e \<Rightarrow> Inl e | Inr b \<Rightarrow> Inr (unat (b AND 0xf)))"

section \<open>Packet parser\<close>

text \<open>
  \<open>coap_pkt_t\<close>. The pointers are indices into the parsed buffer. \<open>url\<close> is the array
  of \<open>NANOCOAP_URL_MAX\<close> bytes; that constant is a parameter \<open>url_max\<close> of the parser.
\<close>

record coap_pkt =
  hdr :: "nat option"
  url :: "byte list"
  token :: "nat option"
  options :: "nat option"
  payload :: "nat option"
  payload_len :: nat
  content_type :: "16 word"
  observe_value :: "32 word"

text \<open>\<open>memcpy\<close> into an array at index \<open>i\<close>.\<close>

definition wr_bytes :: "byte list \<Rightarrow> nat \<Rightarrow> byte list \<Rightarrow> error + byte list" where
  "wr_bytes dst i bs =
     (if bs = [] then Inr dst
      else if i + length bs \<le> length dst
        then Inr (take i dst @ bs @ drop (i + length bs) dst)
      else Inl OutOfBounds)"

text \<open>
  The \<open>switch (option_nr)\<close> of \<open>coap_parse\<close>: the packet and \<open>urlpos\<close> after it, or
  the error together with the packet as it stands at the \<open>return\<close>.
\<close>

definition parse_switch ::
  "byte list \<Rightarrow> coap_pkt \<Rightarrow> nat \<Rightarrow> nat \<Rightarrow> int \<Rightarrow> nat
     \<Rightarrow> (error \<times> coap_pkt) + (coap_pkt \<times> nat)" where
  "parse_switch buf pkt urlpos pkt_pos option_nr option_len =
     (if option_nr = int COAP_OPT_URI_PATH then
        (if \<not> urlpos < length (url pkt) then Inl (OutOfBounds, pkt)
         else
           (let pkt1 = pkt\<lparr>url := (url pkt)[urlpos := 0x2f]\<rparr> in
            case rd_bytes buf pkt_pos option_len of
              Inl e \<Rightarrow> Inl (e, pkt1)
            | Inr bs \<Rightarrow>
                (case wr_bytes (url pkt1) (urlpos + 1) bs of
                   Inl e \<Rightarrow> Inl (e, pkt1)
                 | Inr u \<Rightarrow> Inr (pkt1\<lparr>url := u\<rparr>, urlpos + 1 + option_len))))
      else if option_nr = int COAP_OPT_CONTENT_FORMAT then
        (if option_len = 0 then Inr (pkt\<lparr>content_type := 0\<rparr>, urlpos)
         else if option_len = 1 then
           (case rd buf pkt_pos of
              Inl e \<Rightarrow> Inl (e, pkt)
            | Inr b \<Rightarrow> Inr (pkt\<lparr>content_type := ucast b\<rparr>, urlpos))
         else if option_len = 2 then
           (case rd_bytes buf pkt_pos 2 of
              Inl e \<Rightarrow> Inl (e, pkt)
            | Inr bs \<Rightarrow> Inr (pkt\<lparr>content_type := ucast (be_val bs)\<rparr>, urlpos))
         else Inr (pkt, urlpos))
      else if option_nr = int COAP_OPT_OBSERVE then
        (if option_len < 4 then
           (case decode_uint buf pkt_pos option_len of
              Inl e \<Rightarrow> Inl (e, pkt)
            | Inr v \<Rightarrow> Inr (pkt\<lparr>observe_value := v\<rparr>, urlpos))
         else Inl (EBADMSG, pkt))
      else if option_nr = int COAP_OPT_BLOCK2 then
        (if option_len < 4 then
           (case decode_uint buf pkt_pos option_len of
              Inl e \<Rightarrow> Inl (e, pkt)
            | Inr blk2_opt \<Rightarrow>
                (let blk2_size = (ucast (blk2_opt AND COAP_BLOCKWISE_SZX_MASK) + 4 :: 8 word)
                 in if blk2_size > 10 then Inl (EBADMSG, pkt) else Inr (pkt, urlpos)))
         else Inl (EBADMSG, pkt))
      else if odd option_nr then Inl (EBADMSG, pkt)
      else Inr (pkt, urlpos))"

lemma decode_value_pos:
  "decode_value v buf p e = Inr (r, p') \<Longrightarrow> p \<le> p'"
  by (auto simp: decode_value_def split: if_splits sum.splits)

lemma decode_opt_hdr_pos:
  "decode_opt_hdr buf p e b = Inr (d, l, p') \<Longrightarrow> p \<le> p'"
  by (auto simp: decode_opt_hdr_def split: sum.splits prod.splits dest!: decode_value_pos)

text \<open>
  The \<open>while (pkt_pos != pkt_end)\<close> loop, with \<open>pkt_end = buf + len\<close> the end of the
  list. The result is the packet and \<open>pkt_pos\<close> at the loop's exit. \<open>option_nr\<close> is
  an \<open>int\<close>.
\<close>

function parse_loop ::
  "byte list \<Rightarrow> coap_pkt \<Rightarrow> nat \<Rightarrow> nat \<Rightarrow> int \<Rightarrow> (error \<times> coap_pkt) + (coap_pkt \<times> nat)" where
  "parse_loop buf pkt urlpos pkt_pos option_nr =
     (if pkt_pos = length buf then Inr (pkt, pkt_pos)
      else
        (case rd buf pkt_pos of
           Inl e \<Rightarrow> Inl (e, pkt)
         | Inr option_byte \<Rightarrow>
             if option_byte = 0xff
             then Inr (pkt\<lparr>payload := Some (pkt_pos + 1),
                           payload_len := length buf - (pkt_pos + 1)\<rparr>, pkt_pos + 1)
             else
               (case decode_opt_hdr buf (pkt_pos + 1) (length buf) option_byte of
                  Inl e \<Rightarrow> Inl (e, pkt)
                | Inr (option_delta, option_len, p) \<Rightarrow>
                    if 2147483647 < option_nr + int option_delta then Inl (IntOverflow, pkt)
                    else
                      (case parse_switch buf pkt urlpos p (option_nr + int option_delta) option_len of
                         Inl x \<Rightarrow> Inl x
                       | Inr (pkt', urlpos') \<Rightarrow>
                           parse_loop buf pkt' urlpos' (p + option_len)
                             (option_nr + int option_delta)))))"
  by pat_completeness auto
termination
proof (relation "measure (\<lambda>(buf, pkt, urlpos, pkt_pos, option_nr). length buf - pkt_pos)")
  show "wf (measure (\<lambda>(buf, pkt, urlpos, pkt_pos, option_nr). length buf - pkt_pos))"
    by simp
next
  fix buf :: "byte list" and pkt :: coap_pkt and urlpos pkt_pos :: nat and option_nr :: int
    and option_byte x2 option_delta y option_len p x2a pkt' urlpos'
  assume "rd buf pkt_pos = Inr option_byte"
    and "decode_opt_hdr buf (pkt_pos + 1) (length buf) option_byte = Inr x2"
    and "(option_delta, y) = x2" and "(option_len, p) = y"
  then have "pkt_pos < length buf" and "pkt_pos + 1 \<le> p"
    using decode_opt_hdr_pos [of buf "pkt_pos + 1" "length buf" option_byte option_delta option_len p]
    by (auto simp: rd_def split: if_splits)
  then show "((buf, pkt', urlpos', p + option_len, option_nr + int option_delta),
              (buf, pkt, urlpos, pkt_pos, option_nr))
             \<in> measure (\<lambda>(buf, pkt, urlpos, pkt_pos, option_nr). length buf - pkt_pos)"
    by simp
qed

declare parse_loop.simps [simp del]

text \<open>
  \<open>coap_parse(pkt, buf, len)\<close> with \<open>len\<close> the length of the list \<open>buf\<close>. \<open>Inr\<close> is
  the return value 0 with the packet; \<open>Inl\<close> carries the error and the caller's packet
  as the function leaves it. \<open>hdr->data\<close> is at offset 4.
\<close>

definition coap_parse :: "nat \<Rightarrow> coap_pkt \<Rightarrow> byte list \<Rightarrow> (error \<times> coap_pkt) + coap_pkt" where
  "coap_parse url_max pkt buf =
     (let pkt1 = pkt\<lparr>hdr := Some 0\<rparr>;
          pkt2 = pkt1\<lparr>url := replicate url_max 0, payload_len := 0,
                      observe_value := 0xffffffff\<rparr>
      in case coap_get_token_len buf of
           Inl e \<Rightarrow> Inl (e, pkt2)
         | Inr tkl \<Rightarrow>
             (let pkt3 = (if tkl \<noteq> 0 then pkt2\<lparr>token := Some 4\<rparr> else pkt2\<lparr>token := None\<rparr>);
                  pkt_pos = (if tkl \<noteq> 0 then 4 + tkl else 4);
                  pkt4 = pkt3\<lparr>options := (if pkt_pos \<noteq> length buf then Some pkt_pos else None)\<rparr>
              in case parse_loop buf pkt4 0 pkt_pos 0 of
                   Inl x \<Rightarrow> Inl x
                 | Inr (pkt5, pos) \<Rightarrow>
                     Inr (if pos = length buf then pkt5\<lparr>payload := Some (length buf)\<rparr>
                          else pkt5)))"

text \<open>
  A result of \<open>coap_parse\<close> on a message without token, carried over to the same
  message with a token of \<open>t\<close> bytes: the token pointer is at offset 4 (NULL for
  \<open>t = 0\<close>) and the options and payload pointers lie \<open>t\<close> bytes further. On an
  error the payload pointer is the caller's.
\<close>

definition with_token ::
  "nat \<Rightarrow> (error \<times> coap_pkt) + coap_pkt \<Rightarrow> (error \<times> coap_pkt) + coap_pkt" where
  "with_token t r =
     (case r of
        Inl (e, p) \<Rightarrow>
          Inl (e, p\<lparr>token := (if t \<noteq> 0 then Some 4 else None),
                     options := map_option (\<lambda>i. i + t) (options p)\<rparr>)
      | Inr p \<Rightarrow>
          Inr (p\<lparr>token := (if t \<noteq> 0 then Some 4 else None),
                 options := map_option (\<lambda>i. i + t) (options p),
                 payload := map_option (\<lambda>i. i + t) (payload p)\<rparr>))"

text \<open>
  A result of the parser's loop with the payload pointer blanked and the exit position
  moved by \<open>k\<close>.
\<close>

definition moved :: "nat \<Rightarrow> (error \<times> coap_pkt) + (coap_pkt \<times> nat) \<Rightarrow> (error \<times> coap_pkt) + (coap_pkt \<times> nat)" where
  "moved k r = (case r of Inl x \<Rightarrow> Inl x | Inr (p, pos) \<Rightarrow> Inr (p\<lparr>payload := None\<rparr>, k + pos))"

section \<open>The option chain on the wire\<close>







section \<open>Blockwise windowing engine\<close>

text \<open>
  \<open>coap_blockwise_t\<close>: the three offsets. The struct is declared in the missing header;
  the offsets are taken as \<open>uint32_t\<close>, the type of the locals of
  \<open>coap_blockwise_put_string\<close> and \<open>coap_blockwise_init\<close> they are computed with, and
  \<open>size_t\<close> as 32 bits wide, as on the 32-bit targets of the library.
\<close>

record coap_blockwise =
  start_pos :: "32 word"
  end_pos :: "32 word"
  cur_pos :: "32 word"

text \<open>
  \<open>coap_blockwise_init(pkt, blk)\<close>. \<open>COAP_BLOCKWISE_SZX_MAX\<close>, the configured
  maximum size exponent, is the parameter \<open>szx_max\<close>; \<open>blk2_size\<close> is a \<open>uint8_t\<close>.
  \<open>opt\<close> is the uninitialised local \<open>coap_opt_t\<close>.
\<close>

definition coap_blockwise_init ::
  "nat \<Rightarrow> byte list \<Rightarrow> coap_pkt \<Rightarrow> coap_opt \<Rightarrow> error + coap_blockwise" where
  "coap_blockwise_init szx_max buf pkt opt =
     (case coap_find_option buf (payload pkt) (options pkt) opt (word_of_nat COAP_OPT_BLOCK2) of
        Inl e \<Rightarrow> Inl e
      | Inr (found, opt') \<Rightarrow>
          (case (case found of
                   None \<Rightarrow> Inr (0, word_of_nat szx_max)
                 | Some p \<Rightarrow>
                     (case decode_uint buf (opt_val opt') (unat (opt_len opt')) of
                        Inl e \<Rightarrow> Inl e
                      | Inr blk2_opt \<Rightarrow>
                          Inr (drop_bit COAP_BLOCKWISE_NUM_OFF blk2_opt,
                               ucast (blk2_opt AND COAP_BLOCKWISE_SZX_MASK) + 4))) of
             Inl e \<Rightarrow> Inl e
           | Inr (blk2_num, blk2_size) \<Rightarrow>
               (let blk2_size' = (if unat (blk2_size :: 8 word) < szx_max then blk2_size
                                  else word_of_nat szx_max);
                    start = push_bit (unat blk2_size') (blk2_num * 1)
                in Inr \<lparr>start_pos = start,
                        end_pos = start + push_bit (unat blk2_size') 1,
                        cur_pos = 0\<rparr>)))"

text \<open>
  \<open>coap_finish_option_block2(blk, options_pos, body_pos)\<close>: the buffer after the call.
  The patched byte is \<open>opt.val[opt.len - 1]\<close>.
\<close>

definition coap_finish_option_block2 ::
  "byte list \<Rightarrow> coap_blockwise \<Rightarrow> nat \<Rightarrow> nat \<Rightarrow> coap_opt \<Rightarrow> error + byte list" where
  "coap_finish_option_block2 buf blk options_pos body_pos opt =
     (case coap_find_option buf (Some body_pos) (Some options_pos) opt
             (word_of_nat COAP_OPT_BLOCK2) of
        Inl e \<Rightarrow> Inl e
      | Inr (None, opt') \<Rightarrow> Inr buf
      | Inr (Some hdr_pos, opt') \<Rightarrow>
          if end_pos blk \<le> cur_pos blk then
            (let i = int (opt_val opt') + int (unat (opt_len opt')) - 1 in
             if 0 \<le> i \<and> nat i < length buf
             then Inr (buf[nat i := buf ! nat i OR push_bit COAP_BLOCKWISE_MORE_OFF 1])
             else Inl OutOfBounds)
          else Inr buf)"

text \<open>
  \<open>coap_blockwise_put_char(blk, bufpos, c)\<close>: the cursor after the call and the bytes
  written at \<open>bufpos\<close> (the return value is their number).
\<close>

definition coap_blockwise_put_char ::
  "coap_blockwise \<Rightarrow> byte \<Rightarrow> coap_blockwise \<times> byte list" where
  "coap_blockwise_put_char blk c =
     (if start_pos blk \<le> cur_pos blk \<and> cur_pos blk < end_pos blk
      then (blk\<lparr>cur_pos := cur_pos blk + 1\<rparr>, [c])
      else (blk\<lparr>cur_pos := cur_pos blk + 1\<rparr>, []))"

text \<open>
  \<open>coap_blockwise_put_string(blk, bufpos, c, len)\<close> for a string \<open>c\<close> of \<open>len\<close> bytes.
  The \<open>memcpy\<close> reads \<open>str_len\<close> bytes of \<open>c\<close> from \<open>str_offset\<close> on.
\<close>

definition coap_blockwise_put_string ::
  "coap_blockwise \<Rightarrow> byte list \<Rightarrow> error + (coap_blockwise \<times> byte list)" where
  "coap_blockwise_put_string blk c =
     (let len = (word_of_nat (length c) :: 32 word);
          str_offset = (if cur_pos blk < start_pos blk then start_pos blk - cur_pos blk else 0)
      in if len < str_offset then Inr (blk\<lparr>cur_pos := cur_pos blk + len\<rparr>, [])
         else if end_pos blk \<le> cur_pos blk then Inr (blk\<lparr>cur_pos := cur_pos blk + len\<rparr>, [])
         else
           (let str_len = (if end_pos blk \<le> cur_pos blk + len
                           then end_pos blk - cur_pos blk - str_offset
                           else len - str_offset)
            in case rd_bytes c (unat str_offset) (unat str_len) of
                 Inl e \<Rightarrow> Inl e
               | Inr bs \<Rightarrow> Inr (blk\<lparr>cur_pos := cur_pos blk + len\<rparr>, bs)))"

text \<open>
  A body generator is a sequence of \<open>put_char\<close> and \<open>put_string\<close> calls, each writing
  at the position the previous one left (\<open>bufpos += ...\<close>), as the well-known/core
  handler does. \<open>emit\<close> runs such a sequence and collects the output buffer.
\<close>

datatype piece = PutChar byte | PutString "byte list"

fun body_of :: "piece list \<Rightarrow> byte list" where
  "body_of [] = []"
| "body_of (PutChar c # ps) = c # body_of ps"
| "body_of (PutString s # ps) = s @ body_of ps"

fun emit :: "coap_blockwise \<Rightarrow> piece list \<Rightarrow> error + (coap_blockwise \<times> byte list)" where
  "emit blk [] = Inr (blk, [])"
| "emit blk (PutChar c # ps) =
     (case coap_blockwise_put_char blk c of
        (blk', out) \<Rightarrow>
          (case emit blk' ps of
             Inl e \<Rightarrow> Inl e
           | Inr (blk'', rest) \<Rightarrow> Inr (blk'', out @ rest)))"
| "emit blk (PutString s # ps) =
     (case coap_blockwise_put_string blk s of
        Inl e \<Rightarrow> Inl e
      | Inr (blk', out) \<Rightarrow>
          (case emit blk' ps of
             Inl e \<Rightarrow> Inl e
           | Inr (blk'', rest) \<Rightarrow> Inr (blk'', out @ rest)))"

text \<open>
  The bytes of \<open>xs\<close> that fall into the window \<open>[s, e)\<close> of the body when \<open>xs\<close> is
  laid out from the body offset \<open>c\<close> on.
\<close>

definition window :: "nat \<Rightarrow> nat \<Rightarrow> nat \<Rightarrow> 'a list \<Rightarrow> 'a list" where
  "window s e c xs = take (e - max s c) (drop (s - c) xs)"

text \<open>The output of one run of the generator under the window \<open>[s, e)\<close>.\<close>

definition emit_window :: "nat \<Rightarrow> nat \<Rightarrow> piece list \<Rightarrow> error + byte list" where
  "emit_window s e ps =
     (case emit \<lparr>start_pos = word_of_nat s, end_pos = word_of_nat e, cur_pos = 0\<rparr> ps of
        Inl err \<Rightarrow> Inl err
      | Inr (blk, out) \<Rightarrow> Inr out)"

text \<open>
  The generator run once per block \<open>k = k0, ..., k0 + n - 1\<close> of size \<open>B\<close>, and the
  outputs concatenated.
\<close>

fun emit_blocks :: "nat \<Rightarrow> piece list \<Rightarrow> nat \<Rightarrow> nat \<Rightarrow> error + byte list" where
  "emit_blocks B ps k0 0 = Inr []"
| "emit_blocks B ps k0 (Suc n) =
     (case emit_window (k0 * B) ((k0 + 1) * B) ps of
        Inl e \<Rightarrow> Inl e
      | Inr out \<Rightarrow>
          (case emit_blocks B ps (Suc k0) n of
             Inl e \<Rightarrow> Inl e
           | Inr rest \<Rightarrow> Inr (out @ rest)))"

section \<open>URI options\<close>

text \<open>
  A C string is the byte list \<open>uri\<close> followed by its NUL terminator; \<open>strlen\<close> counts
  up to the first NUL.
\<close>

definition c_str :: "byte list \<Rightarrow> byte list" where
  "c_str uri = uri @ [0]"

definition strlen :: "byte list \<Rightarrow> nat" where
  "strlen uri = length (takeWhile (\<lambda>c. c \<noteq> 0) (c_str uri))"

text \<open>
  The inner loop \<open>while (uri_len--) { if (*uripos == separator || *uripos == 0) break;
  uripos++; }\<close>: the result is \<open>uripos\<close> and \<open>uri_len\<close> at its exit. When the test
  itself finds \<open>uri_len = 0\<close> the loop ends and the decrement wraps the \<open>size_t\<close>.
\<close>

fun uri_inner :: "byte list \<Rightarrow> byte \<Rightarrow> nat \<Rightarrow> nat \<Rightarrow> error + (nat \<times> nat)" where
  "uri_inner uri separator uripos 0 = Inr (uripos, 2 ^ 32 - 1)"
| "uri_inner uri separator uripos (Suc uri_len) =
     (case rd (c_str uri) uripos of
        Inl e \<Rightarrow> Inl e
      | Inr c \<Rightarrow>
          if c = separator \<or> c = 0 then Inr (uripos, uri_len)
          else uri_inner uri separator (uripos + 1) uri_len)"

lemma uri_inner_pos:
  "uri_inner uri separator uripos (Suc n) = Inr (uripos', n')
     \<Longrightarrow> uripos \<le> uripos' \<and> uripos \<le> length uri"
proof (induction n arbitrary: uripos)
  case 0
  then show ?case
    by (auto simp: rd_def c_str_def split: if_splits)
next
  case (Suc n)
  show ?case
  proof (cases "rd (c_str uri) uripos")
    case (Inl e)
    with Suc.prems show ?thesis by simp
  next
    case (Inr c)
    then have le: "uripos \<le> length uri"
      by (auto simp: rd_def c_str_def split: if_splits)
    show ?thesis
    proof (cases "c = separator \<or> c = 0")
      case True
      with Suc.prems Inr le show ?thesis by auto
    next
      case False
      with Suc.prems Inr have "uri_inner uri separator (uripos + 1) (Suc n) = Inr (uripos', n')"
        by auto
      from Suc.IH [OF this] le show ?thesis by simp
    qed
  qed
qed

text \<open>
  The outer loop \<open>while (uri_len)\<close>; \<open>out\<close> is what has been written from \<open>buf\<close> up to
  \<open>bufpos\<close>.
\<close>

function uri_outer ::
  "byte list \<Rightarrow> byte \<Rightarrow> 16 word \<Rightarrow> 16 word \<Rightarrow> nat \<Rightarrow> nat \<Rightarrow> byte list \<Rightarrow> error + byte list" where
  "uri_outer uri separator lastonum optnum uripos uri_len out =
     (if uri_len = 0 then Inr out
      else
        (case uri_inner uri separator (uripos + 1) uri_len of
           Inl e \<Rightarrow> Inl e
         | Inr (uripos', uri_len') \<Rightarrow>
             if uripos' - (uripos + 1) \<noteq> 0 then
               (case rd_bytes (c_str uri) (uripos + 1) (uripos' - (uripos + 1)) of
                  Inl e \<Rightarrow> Inl e
                | Inr part \<Rightarrow>
                    (case coap_put_option lastonum optnum part of
                       Inl e \<Rightarrow> Inl e
                     | Inr bs \<Rightarrow>
                         uri_outer uri separator optnum optnum uripos' uri_len' (out @ bs)))
             else uri_outer uri separator lastonum optnum uripos' uri_len' out))"
  by pat_completeness auto
termination
proof (relation "measure (\<lambda>(uri, separator, lastonum, optnum, uripos, uri_len, out).
                   length uri + 2 - uripos)")
  show "wf (measure (\<lambda>(uri, separator, lastonum, optnum, uripos, uri_len, out).
                   length uri + 2 - uripos))"
    by simp
next
  fix uri :: "byte list" and separator :: byte and lastonum optnum :: "16 word"
    and uripos uri_len :: nat and out :: "byte list" and x2 uripos' uri_len' part bs
  assume "uri_len \<noteq> 0" and "uri_inner uri separator (uripos + 1) uri_len = Inr x2"
    and "(uripos', uri_len') = x2"
  then have "uripos + 1 \<le> uripos' \<and> uripos + 1 \<le> length uri"
    using uri_inner_pos [of uri separator "uripos + 1" "uri_len - 1" uripos' uri_len']
    by simp
  then show "((uri, separator, optnum, optnum, uripos', uri_len', out @ bs),
              (uri, separator, lastonum, optnum, uripos, uri_len, out))
             \<in> measure (\<lambda>(uri, separator, lastonum, optnum, uripos, uri_len, out).
                   length uri + 2 - uripos)"
    by auto
next
  fix uri :: "byte list" and separator :: byte and lastonum optnum :: "16 word"
    and uripos uri_len :: nat and out :: "byte list" and x2 uripos' uri_len'
  assume "uri_len \<noteq> 0" and "uri_inner uri separator (uripos + 1) uri_len = Inr x2"
    and "(uripos', uri_len') = x2"
  then have "uripos + 1 \<le> uripos' \<and> uripos + 1 \<le> length uri"
    using uri_inner_pos [of uri separator "uripos + 1" "uri_len - 1" uripos' uri_len']
    by simp
  then show "((uri, separator, lastonum, optnum, uripos', uri_len', out),
              (uri, separator, lastonum, optnum, uripos, uri_len, out))
             \<in> measure (\<lambda>(uri, separator, lastonum, optnum, uripos, uri_len, out).
                   length uri + 2 - uripos)"
    by auto
qed

declare uri_outer.simps [simp del]

text \<open>
  \<open>coap_put_option_uri(buf, lastonum, uri, optnum)\<close>: the bytes written from \<open>buf\<close> on
  (the return value is their number).
\<close>

definition coap_put_option_uri :: "16 word \<Rightarrow> byte list \<Rightarrow> 16 word \<Rightarrow> error + byte list" where
  "coap_put_option_uri lastonum uri optnum =
     (let separator = (if optnum = word_of_nat COAP_OPT_URI_PATH then 0x2f else 0x26 :: byte);
          uri_len = strlen uri
      in if uri_len = 0 then Inr []
         else uri_outer uri separator lastonum optnum 0 uri_len [])"

text \<open>
  The splitting as the specification words it: the string is cut at every separator, the
  empty segments are dropped, and one option is emitted per remaining segment, the first
  with the delta from \<open>lastonum\<close> and the others with delta zero.
\<close>

fun split_on :: "byte \<Rightarrow> byte list \<Rightarrow> byte list list" where
  "split_on separator [] = [[]]"
| "split_on separator (c # cs) =
     (if c = separator then [] # split_on separator cs
      else (case split_on separator cs of
              seg # segs \<Rightarrow> (c # seg) # segs
            | [] \<Rightarrow> [[c]]))"

text \<open>
  The bytes the code writes for a list of segments when no assertion fails: each
  segment with the header of \<open>_put_odelta\<close>.
\<close>

fun seg_bytes :: "16 word \<Rightarrow> 16 word \<Rightarrow> byte list list \<Rightarrow> byte list" where
  "seg_bytes lastonum optnum [] = []"
| "seg_bytes lastonum optnum (seg # segs) =
     put_odelta (ucast lastonum) (ucast optnum) (word_of_nat (length seg)) @ seg
       @ seg_bytes optnum optnum segs"

text \<open>
  The encoding of one option as the specification words it (section 3): the delta and
  the length each as a nibble, extended by one byte holding the value minus 13 when the
  nibble is 13 and by two bytes in network order holding the value minus 269 when it is
  14; then the value bytes. \<open>put_uri_spec\<close> emits one such option per non-empty
  segment.
\<close>

definition ext_nibble :: "nat \<Rightarrow> nat" where
  "ext_nibble x = (if x < 13 then x else if x < 269 then 13 else 14)"

definition ext_bytes :: "nat \<Rightarrow> byte list" where
  "ext_bytes x =
     (if x < 13 then []
      else if x < 269 then [word_of_nat (x - 13)]
      else [word_of_nat ((x - 269) div 256), word_of_nat ((x - 269) mod 256)])"

definition option_spec :: "nat \<Rightarrow> nat \<Rightarrow> byte list \<Rightarrow> byte list" where
  "option_spec last_number number val =
     word_of_nat (16 * ext_nibble (number - last_number) + ext_nibble (length val))
       # ext_bytes (number - last_number) @ ext_bytes (length val) @ val"

fun put_segments_spec :: "nat \<Rightarrow> nat \<Rightarrow> byte list list \<Rightarrow> byte list" where
  "put_segments_spec last_number number [] = []"
| "put_segments_spec last_number number (seg # segs) =
     option_spec last_number number seg @ put_segments_spec number number segs"

definition put_uri_spec :: "nat \<Rightarrow> byte list \<Rightarrow> nat \<Rightarrow> byte list" where
  "put_uri_spec last_number uri number =
     put_segments_spec last_number number
       (filter (\<lambda>seg. seg \<noteq> [])
          (split_on (if number = COAP_OPT_URI_PATH then 0x2f else 0x26) uri))"

section \<open>Sample inputs\<close>

text \<open>
  A caller's \<open>coap_opt_t\<close> before the scanner writes it, and a caller's packet struct
  that still holds the content-format 40 and an observe value of an earlier message.
\<close>

definition opt_blank :: coap_opt where
  "opt_blank = \<lparr>opt_delta = 0, opt_len = 0, opt_val = 0\<rparr>"

definition pkt_stale :: coap_pkt where
  "pkt_stale = \<lparr>hdr = None, url = [], token = None, options = None, payload = None,
                 payload_len = 0, content_type = 40, observe_value = 0\<rparr>"

text \<open>
  A request with the Block2 option NUM = 2, SZX = 6 (1024 bytes), and a request with the
  single option Uri-Path \<open>a\<close>, each with the packet \<open>coap_parse\<close> makes of it.
\<close>

definition msg_block2_req :: "byte list" where
  "msg_block2_req = [0x40, 0x01, 0x00, 0x01, 0xD1, 0x0A, 0x26]"

definition pkt_block2_req :: coap_pkt where
  "pkt_block2_req = \<lparr>hdr = Some 0, url = replicate 8 0, token = None, options = Some 4,
                      payload = Some 7, payload_len = 0, content_type = 40,
                      observe_value = 0xffffffff\<rparr>"

definition msg_path_a :: "byte list" where
  "msg_path_a = [0x40, 0x01, 0x00, 0x01, 0xB1, 0x61]"

definition pkt_path_a :: coap_pkt where
  "pkt_path_a = \<lparr>hdr = Some 0, url = [0x2f, 0x61, 0, 0, 0, 0, 0, 0], token = None,
                  options = Some 4, payload = Some 6, payload_len = 0, content_type = 40,
                  observe_value = 0xffffffff\<rparr>"



definition listing :: "piece list" where
  "listing = [PutChar 0x3c, PutString [0x2f, 0x61, 0x62, 0x63, 0x64, 0x65], PutChar 0x3e,
              PutChar 0x2c, PutChar 0x3c, PutString [0x2f, 0x78, 0x79], PutChar 0x3e]"

section \<open>Round trip of the option header\<close>

lemmas codec_defs =
  encode_then_decode_def coap_put_option_def put_odelta_def decode_first_hdr_def rd_def
  decode_opt_hdr_def decode_value_def left_lt_def rd_bytes_def be_val_def as_badmsg_def

text \<open>
  C1. The header written for an option must decode to the same delta and length. The
  encoder takes the two-byte extension for every delta above 13, also for the deltas
  14 to 268 that need the one-byte extension: for the first option number 14 (last
  number 0, no value) it writes \<open>0xE0 0xFF 0x01\<close>, and the decoder reads the delta
  65550 from it, not 14.
\<close>

theorem put_option_delta_14_decodes_as_65550:
  "coap_put_option 0 14 [] = Inr [0xE0, 0xFF, 0x01]
   \<and> encode_then_decode 0 14 [] = Inr (65550, 0)"
  by (simp add: codec_defs)

text \<open>
  The length has no extension in the encoder at all: a value of 13 bytes gets the
  nibble 13, and the decoder takes the first value byte as its extension.
\<close>

lemma put_option_len_13_decodes_as_78:
  "encode_then_decode 0 0 (replicate 13 0x41) = Inr (0, 78)"
  by code_simp

lemma bit_small:
  fixes w :: "32 word"
  assumes "w < 16" and "bit w n"
  shows "n < 4"
proof (rule ccontr)
  assume "\<not> n < 4"
  then have "4 \<le> n" by simp
  from assms(1) have "unat w < 2 ^ 4"
    by (simp add: word_less_nat_alt)
  then have "unat (take_bit 4 w) = unat w"
    by (simp add: unsigned_take_bit_eq take_bit_nat_eq_self)
  then have "take_bit 4 w = w"
    by (simp add: word_unat_eq_iff)
  then have "bit (take_bit 4 w) n" using assms(2) by simp
  with \<open>4 \<le> n\<close> show False by (simp add: bit_take_bit_iff)
qed

lemma nibble_hi:
  fixes d l :: "32 word"
  assumes "d < 16" and "l < 16"
  shows "unat (drop_bit 4 (ucast (push_bit 4 d OR l) :: 8 word)) = unat d"
proof -
  have "drop_bit 4 (ucast (push_bit 4 d OR l) :: 8 word) = ucast d"
    using assms
    by (auto simp: bit_eq_iff bit_simps dest: bit_small)
  moreover have "unat (ucast d :: 8 word) = unat d"
    using assms(1) by (simp add: unsigned_ucast_eq take_bit_nat_eq_self_iff word_less_nat_alt)
  ultimately show ?thesis by simp
qed

lemma nibble_lo:
  fixes d l :: "32 word"
  assumes "l < 16"
  shows "unat ((ucast (push_bit 4 d OR l) :: 8 word) AND 0xf) = unat l"
proof -
  have "(ucast (push_bit 4 d OR l) :: 8 word) AND mask 4 = ucast l"
    using assms
    by (auto simp: bit_eq_iff bit_simps dest: bit_small)
  moreover have "unat (ucast l :: 8 word) = unat l"
    using assms(1) by (simp add: unsigned_ucast_eq take_bit_nat_eq_self_iff word_less_nat_alt)
  ultimately show ?thesis by (simp add: mask_eq_exp_minus_1)
qed


lemma be_val_two:
  fixes tmp :: "16 word"
  shows "be_val [ucast (drop_bit 8 tmp), ucast tmp] = ucast tmp"
  by (auto simp: be_val_def bit_eq_iff bit_simps dest: bit_imp_le_length)

text \<open>
  Outside these two defects the header does round-trip: for a delta of at most 13 or of
  at least 269 and a value shorter than 13 bytes, the decoder recovers the delta and the
  length.
\<close>

lemma put_option_roundtrip:
  assumes le: "lastonum \<le> onum" and len: "length odata < 13"
    and dom: "unat onum - unat lastonum \<le> 13 \<or> 269 \<le> unat onum - unat lastonum"
  shows "encode_then_decode lastonum onum odata
           = Inr (unat onum - unat lastonum, length odata)"
proof -
  define D where "D = unat onum - unat lastonum"
  define d :: "32 word" where "d = ucast onum - ucast lastonum"
  define l :: "32 word" where "l = word_of_nat (length odata)"
  have u16: "unat (ucast x :: 32 word) = unat x" for x :: "16 word"
    by (simp add: unsigned_ucast_eq take_bit_nat_eq_self_iff)
       (rule less_trans [OF unsigned_less], simp)
  have "(ucast lastonum :: 32 word) \<le> ucast onum"
    using le by (simp add: word_le_nat_alt u16)
  then have d: "unat d = D"
    by (simp add: d_def D_def unat_sub u16)
  have l: "unat l = length odata"
    using len by (simp add: l_def unat_of_nat)
  have l16: "l < 16"
    using len by (simp add: word_less_nat_alt l)
  have lo: "unat ((ucast (push_bit 4 x OR l) :: 8 word) AND 0xf) = length odata" for x
    using nibble_lo [OF l16, of x] l by simp
  have enc: "coap_put_option lastonum onum odata = Inr (put_odelta (ucast lastonum) (ucast onum) l @ odata)"
    using le by (simp add: coap_put_option_def l_def)
  from dom consider (small) "D < 13" | (thirteen) "D = 13" | (large) "269 \<le> D"
    unfolding D_def by linarith
  then show ?thesis
  proof cases
    case small
    then have d13: "d < 13" and d16: "d < 16"
      by (simp_all add: word_less_nat_alt d)
    have hi: "unat (drop_bit 4 (ucast (push_bit 4 d OR l) :: 8 word)) = D"
      using nibble_hi [OF d16 l16] d by simp
    show ?thesis
      using small len d13
      by (simp add: encode_then_decode_def enc put_odelta_def decode_first_hdr_def rd_def
            decode_opt_hdr_def decode_value_def hi lo Let_def
            flip: d_def D_def)
  next
    case thirteen
    then have d13: "d = 13"
      using d by (simp add: word_unat_eq_iff)
    have hi: "unat (drop_bit 4 (ucast (208 OR l) :: 8 word)) = 13"
      using nibble_hi [of 13 l] l16 by simp
    have lo: "unat ((ucast (208 OR l) :: 8 word) AND 0xf) = length odata"
      using nibble_lo [OF l16, of 13] l by simp
    show ?thesis
      using thirteen len
      by (simp add: encode_then_decode_def enc put_odelta_def decode_first_hdr_def rd_def
            decode_opt_hdr_def decode_value_def left_lt_def hi lo Let_def d13 [unfolded d_def]
            flip: D_def)
  next
    case large
    then have nd: "\<not> d < 13" "d \<noteq> 13"
      using d by (auto simp: word_less_nat_alt word_unat_eq_iff)
    have hi: "unat (drop_bit 4 (ucast (224 OR l) :: 8 word)) = 14"
      using nibble_hi [of 14 l] l16 by simp
    have lo: "unat ((ucast (224 OR l) :: 8 word) AND 0xf) = length odata"
      using nibble_lo [OF l16, of 14] l by simp
    have "D < 2 ^ 16"
      unfolding D_def using unsigned_less [of onum, where 'a = nat]
      by (simp add: less_imp_diff_less)
    have sub: "unat (d - 269) = D - 269"
      using large d by (simp add: unat_sub word_le_nat_alt)
    have "unat (ucast (d - 269) :: 16 word) = D - 269"
      using large \<open>D < 2 ^ 16\<close>
      by (simp add: unsigned_ucast_eq sub take_bit_nat_eq_self_iff)
    then have tmp: "unat (ucast (ucast (d - 269) :: 16 word) :: 32 word) + 269 = D"
      using large by (simp add: u16)
    show ?thesis
      using large len nd
      by (simp add: encode_then_decode_def enc put_odelta_def decode_first_hdr_def rd_def
            decode_opt_hdr_def decode_value_def left_lt_def rd_bytes_def hi lo Let_def
            be_val_two tmp
            flip: D_def d_def)
  qed
qed

section \<open>Blockwise windowing\<close>

lemma window_append:
  "window s e c (xs @ ys) = window s e c xs @ window s e (c + length xs) ys"
proof -
  have "e - max s c - (length xs - (s - c)) = e - max s (c + length xs)"
    by (simp add: max_def)
  moreover have "s - c - length xs = s - (c + length xs)"
    by simp
  ultimately show ?thesis
    by (simp add: window_def)
qed

lemma window_single:
  "window s e c [x] = (if s \<le> c \<and> c < e then [x] else [])"
  by (auto simp: window_def max_def)

lemma put_char_window:
  assumes "unat (cur_pos blk) + 1 < 2 ^ 32"
  shows "coap_blockwise_put_char blk ch
           = (blk\<lparr>cur_pos := cur_pos blk + 1\<rparr>,
              window (unat (start_pos blk)) (unat (end_pos blk)) (unat (cur_pos blk)) [ch])"
  by (simp add: coap_blockwise_put_char_def window_single word_le_nat_alt word_less_nat_alt)

lemma put_string_window:
  assumes se: "unat (start_pos blk) \<le> unat (end_pos blk)"
    and no: "unat (cur_pos blk) + length str < 2 ^ 32"
  shows "coap_blockwise_put_string blk str
           = Inr (blk\<lparr>cur_pos := cur_pos blk + word_of_nat (length str)\<rparr>,
                  window (unat (start_pos blk)) (unat (end_pos blk)) (unat (cur_pos blk)) str)"
proof -
  define S E C L where "S = unat (start_pos blk)" and "E = unat (end_pos blk)"
    and "C = unat (cur_pos blk)" and "L = length str"
  define len :: "32 word" where "len = word_of_nat L"
  define off :: "32 word" where
    "off = (if cur_pos blk < start_pos blk then start_pos blk - cur_pos blk else 0)"
  have L: "unat len = L"
    using no by (simp add: len_def L_def unat_of_nat)
  have CL: "unat (cur_pos blk + len) = C + L"
    using no L by (simp add: unat_plus_if' C_def L_def)
  have off: "unat off = S - C"
    by (auto simp: off_def S_def C_def word_less_nat_alt unat_sub word_le_nat_alt)
  have c1: "len < off \<longleftrightarrow> L < S - C"
    by (simp add: word_less_nat_alt L off)
  have c2: "end_pos blk \<le> cur_pos blk \<longleftrightarrow> E \<le> C"
    by (simp add: word_le_nat_alt E_def C_def)
  have c3: "end_pos blk \<le> cur_pos blk + len \<longleftrightarrow> E \<le> C + L"
    by (simp add: word_le_nat_alt E_def CL)
  show ?thesis
  proof (cases "L < S - C")
    case True
    then have "window S E C str = []"
      by (simp add: window_def L_def)
    with True show ?thesis
      using c1 by (simp add: coap_blockwise_put_string_def Let_def
            flip: len_def off_def S_def E_def C_def L_def)
  next
    case False
    note inwin = False
    show ?thesis
    proof (cases "E \<le> C")
      case True
      then have "window S E C str = []"
        by (simp add: window_def)
      with True inwin show ?thesis
        using c1 c2 by (simp add: coap_blockwise_put_string_def Let_def
              flip: len_def off_def S_def E_def C_def L_def)
    next
      case False
      note before_end = False
      have SE: "S \<le> E" using se by (simp add: S_def E_def)
      show ?thesis
      proof (cases "E \<le> C + L")
        case True
        have le1: "cur_pos blk \<le> end_pos blk"
          using before_end by (simp add: word_le_nat_alt E_def C_def)
        have u1: "unat (end_pos blk - cur_pos blk) = E - C"
          using le1 by (simp add: unat_sub E_def C_def)
        have le2: "off \<le> end_pos blk - cur_pos blk"
          using SE before_end by (simp add: word_le_nat_alt u1 off)
        have n: "unat (end_pos blk - cur_pos blk - off) = E - max S C"
          using le2 by (simp add: unat_sub u1 off max_def)
        have "S - C + (E - max S C) \<le> L"
          using True SE before_end by (simp add: max_def)
        then have "rd_bytes str (S - C) (E - max S C) = Inr (window S E C str)"
          by (simp add: rd_bytes_def window_def L_def)
        with True before_end inwin show ?thesis
          using c1 c2 c3 by (simp add: coap_blockwise_put_string_def Let_def n off
                flip: len_def off_def S_def E_def C_def L_def)
      next
        case False
        have le: "off \<le> len"
          using inwin by (simp add: word_le_nat_alt L off)
        have n: "unat (len - off) = L - (S - C)"
          using le by (simp add: unat_sub L off)
        have "L - (S - C) \<le> E - max S C"
          using False SE by (auto simp: max_def)
        then have "window S E C str = drop (S - C) str"
          by (simp add: window_def L_def)
        moreover have "rd_bytes str (S - C) (L - (S - C)) = Inr (drop (S - C) str)"
          using inwin by (simp add: rd_bytes_def L_def)
        ultimately show ?thesis
          using False before_end inwin c1 c2 c3
          by (simp add: coap_blockwise_put_string_def Let_def n off
                flip: len_def off_def S_def E_def C_def L_def)
      qed
    qed
  qed
qed


lemma emit_as_window:
  assumes "unat (start_pos blk) \<le> unat (end_pos blk)"
    and "unat (cur_pos blk) + length (body_of ps) < 2 ^ 32"
  shows "emit blk ps
           = Inr (blk\<lparr>cur_pos := cur_pos blk + word_of_nat (length (body_of ps))\<rparr>,
                  window (unat (start_pos blk)) (unat (end_pos blk)) (unat (cur_pos blk))
                    (body_of ps))"
  using assms
proof (induction ps arbitrary: blk)
  case Nil
  then show ?case by (simp add: window_def)
next
  case (Cons p ps)
  show ?case
  proof (cases p)
    case (PutChar c)
    let ?blk = "blk\<lparr>cur_pos := cur_pos blk + 1\<rparr>"
    from Cons.prems PutChar have no: "unat (cur_pos blk) + 1 < 2 ^ 32"
      and no': "unat (cur_pos blk) + 1 + length (body_of ps) < 2 ^ 32"
      by simp_all
    then have cur: "unat (cur_pos blk + 1) = unat (cur_pos blk) + 1"
      by (simp add: unat_plus_if')
    have "emit ?blk ps
            = Inr (?blk\<lparr>cur_pos := cur_pos ?blk + word_of_nat (length (body_of ps))\<rparr>,
                   window (unat (start_pos ?blk)) (unat (end_pos ?blk)) (unat (cur_pos ?blk))
                     (body_of ps))"
      using Cons.IH [of ?blk] Cons.prems(1) no' by (simp add: cur)
    then show ?thesis
      using PutChar put_char_window [OF no, of c] window_append [of _ _ _ "[c]" "body_of ps"]
      by (simp add: cur add.assoc)
  next
    case (PutString str)
    let ?blk = "blk\<lparr>cur_pos := cur_pos blk + word_of_nat (length str)\<rparr>"
    from Cons.prems PutString have no: "unat (cur_pos blk) + length str < 2 ^ 32"
      and no': "unat (cur_pos blk) + length str + length (body_of ps) < 2 ^ 32"
      by simp_all
    then have cur: "unat (cur_pos blk + word_of_nat (length str)) = unat (cur_pos blk) + length str"
      by (simp add: unat_plus_if' unat_of_nat)
    have "emit ?blk ps
            = Inr (?blk\<lparr>cur_pos := cur_pos ?blk + word_of_nat (length (body_of ps))\<rparr>,
                   window (unat (start_pos ?blk)) (unat (end_pos ?blk)) (unat (cur_pos ?blk))
                     (body_of ps))"
      using Cons.IH [of ?blk] Cons.prems(1) no' by (simp add: cur)
    then show ?thesis
      using PutString put_string_window [OF Cons.prems(1) no] window_append [of _ _ _ str "body_of ps"]
      by (simp add: cur add.assoc)
  qed
qed

lemma emit_window_slice:
  assumes "s \<le> e" and "e < 2 ^ 32" and "length (body_of ps) < 2 ^ 32"
  shows "emit_window s e ps = Inr (take (e - s) (drop s (body_of ps)))"
proof -
  from assms have "unat (word_of_nat s :: 32 word) = s" and "unat (word_of_nat e :: 32 word) = e"
    by (simp_all add: unat_of_nat)
  with assms show ?thesis
    using emit_as_window [of "\<lparr>start_pos = word_of_nat s, end_pos = word_of_nat e, cur_pos = 0\<rparr>" ps]
    by (simp add: emit_window_def window_def)
qed

lemma emit_blocks_slice:
  assumes "(k0 + n) * B < 2 ^ 32" and "length (body_of ps) < 2 ^ 32"
  shows "emit_blocks B ps k0 n = Inr (take (n * B) (drop (k0 * B) (body_of ps)))"
  using assms(1)
proof (induction n arbitrary: k0)
  case 0
  then show ?case by simp
next
  case (Suc n)
  have "(k0 + 1) * B \<le> (k0 + Suc n) * B"
    by (intro mult_le_mono1) simp
  then have e: "(k0 + 1) * B < 2 ^ 32"
    using Suc.prems by (rule le_less_trans)
  have "emit_window (k0 * B) ((k0 + 1) * B) ps = Inr (take B (drop (k0 * B) (body_of ps)))"
    using emit_window_slice [of "k0 * B" "(k0 + 1) * B" ps] e assms(2) by simp
  moreover have "emit_blocks B ps (Suc k0) n
                   = Inr (take (n * B) (drop (Suc k0 * B) (body_of ps)))"
    using Suc.prems by (intro Suc.IH) simp
  moreover have "take B (drop (k0 * B) (body_of ps)) @ take (n * B) (drop (Suc k0 * B) (body_of ps))
                   = take (Suc n * B) (drop (k0 * B) (body_of ps))"
    by (simp add: take_add add.commute)
  ultimately show ?case by simp
qed

text \<open>
  C2. For a body of length L below \<open>2 ^ 32\<close>, generated by any sequence of
  \<open>put_char\<close> and \<open>put_string\<close> calls: under the window [0, L) the output buffer
  holds exactly the body, and for every block size B the outputs of the runs under the
  windows [k * B, (k + 1) * B), k = 0, ..., n - 1, concatenated, are the body, as soon
  as the n blocks cover it (and their end fits the 32-bit offsets).
\<close>

theorem blockwise_windows_reproduce_body:
  assumes "length (body_of ps) < 2 ^ 32"
    and "length (body_of ps) \<le> n * B" and "n * B < 2 ^ 32"
  shows "emit_window 0 (length (body_of ps)) ps = Inr (body_of ps)
         \<and> emit_blocks B ps 0 n = Inr (body_of ps)"
  using assms emit_window_slice [of 0 "length (body_of ps)" ps] emit_blocks_slice [of 0 n B ps]
  by simp

theorem blockwise_windows_reproduce_body_witness:
  "emit_window 0 14 listing = Inr (body_of listing)
   \<and> emit_blocks 4 listing 0 4 = Inr (body_of listing)
   \<and> body_of listing
     = [0x3c, 0x2f, 0x61, 0x62, 0x63, 0x64, 0x65, 0x3e, 0x2c, 0x3c, 0x2f, 0x78, 0x79, 0x3e]"
proof -
  have body: "body_of listing
      = [0x3c, 0x2f, 0x61, 0x62, 0x63, 0x64, 0x65, 0x3e, 0x2c, 0x3c, 0x2f, 0x78, 0x79, 0x3e]"
    by (simp add: listing_def)
  then have len: "length (body_of listing) = 14"
    by simp
  show ?thesis
    using blockwise_windows_reproduce_body [of listing 4 4] body unfolding len by simp
qed

section \<open>The MORE flag\<close>

text \<open>
  C3. A body of length L under a window that ends at \<open>end \<ge> L\<close> must leave the MORE
  flag of the outbound Block2 option clear. The code tests \<open>cur_pos >= end_pos\<close>: for a
  body of exactly 16 bytes under the window [0, 16) the cursor ends at 16, and the flag
  (bit 3 of the option's value byte, at index 3 of the buffer) is set, although no
  further block exists.
\<close>

theorem finish_block2_sets_more_when_body_ends_at_window_end:
  "emit \<lparr>start_pos = 0, end_pos = 16, cur_pos = 0\<rparr> [PutString (replicate 16 0x41)]
     = Inr (\<lparr>start_pos = 0, end_pos = 16, cur_pos = 16\<rparr>, replicate 16 0x41)
   \<and> coap_finish_option_block2 ([0xC1, 0x28, 0xB1, 0x00, 0xFF] @ replicate 16 0x41)
         \<lparr>start_pos = 0, end_pos = 16, cur_pos = 16\<rparr> 0 5 opt_blank
     = Inr ([0xC1, 0x28, 0xB1, 0x08, 0xFF] @ replicate 16 0x41)"
  by code_simp

text \<open>
  What the code does in general: once the Block2 option is found and its last value
  byte lies in the buffer, bit 3 of that byte is set exactly when \<open>end_pos \<le> cur_pos\<close>,
  so also when the cursor stands exactly at the end of the window.
\<close>

lemma finish_block2_sets_more_iff_end_le_cur:
  assumes "coap_find_option buf (Some body_pos) (Some options_pos) opt
             (word_of_nat COAP_OPT_BLOCK2) = Inr (Some hdr_pos, opt')"
    and "0 < opt_val opt' + unat (opt_len opt')"
    and "opt_val opt' + unat (opt_len opt') - 1 < length buf"
  shows "coap_finish_option_block2 buf blk options_pos body_pos opt
           = Inr (if end_pos blk \<le> cur_pos blk
                  then buf[opt_val opt' + unat (opt_len opt') - 1
                             := buf ! (opt_val opt' + unat (opt_len opt') - 1) OR 8]
                  else buf)"
proof -
  have idx: "0 \<le> int a + int n - 1 \<and> nat (int a + int n - 1) = a + n - 1"
    if "0 < a + n" for a n :: nat
    using that by auto
  have "0 \<le> int (opt_val opt') + uint (opt_len opt') - 1
        \<and> nat (int (opt_val opt') + uint (opt_len opt') - 1)
            = opt_val opt' + unat (opt_len opt') - 1"
    using idx [OF assms(2)] by simp
  then show ?thesis
    using assms(1,3)
    by (simp add: coap_finish_option_block2_def COAP_BLOCKWISE_MORE_OFF_def Let_def)
qed

section \<open>The parser\<close>

text \<open>
  C6. A message without a Content-Format option must parse to the content-format 0.
  \<open>coap_parse\<close> resets \<open>url\<close>, \<open>payload_len\<close> and \<open>observe_value\<close> before the scan but
  not \<open>content_type\<close>: a header-only message parsed into a struct that held the
  content-format 40 leaves 40 there. The observe value is the all-ones sentinel.
\<close>

theorem parse_keeps_stale_content_type:
  "coap_parse 8 pkt_stale [0x40, 0x01, 0x00, 0x01]
     = Inr \<lparr>hdr = Some 0, url = replicate 8 0, token = None, options = None,
            payload = Some 4, payload_len = 0, content_type = 40,
            observe_value = 0xffffffff\<rparr>"
  by code_simp

text \<open>
  C4, as stated, fails: a message with the Uri-Path option \<open>a\<close> followed by the unknown
  critical option 13 is rejected, and the caller's struct then holds the header, the
  options pointer, the sentinel and the URL \<open>/a\<close> of the rejected message.
\<close>

theorem parse_rejected_message_leaves_url:
  "coap_parse 8 pkt_stale [0x40, 0x01, 0x00, 0x01, 0xB1, 0x61, 0x20]
     = Inl (EBADMSG,
            \<lparr>hdr = Some 0, url = [0x2f, 0x61, 0, 0, 0, 0, 0, 0], token = None,
             options = Some 4, payload = None, payload_len = 0, content_type = 40,
             observe_value = 0xffffffff\<rparr>)"
  by code_simp

lemma parse_switch_keeps:
  assumes "parse_switch buf pkt urlpos pkt_pos option_nr option_len = r"
  shows "case r of
           Inl (e, pkt') \<Rightarrow> e \<noteq> ENOSPC \<and> hdr pkt' = hdr pkt \<and> payload pkt' = payload pkt
                             \<and> payload_len pkt' = payload_len pkt
         | Inr (pkt', urlpos') \<Rightarrow> hdr pkt' = hdr pkt \<and> payload pkt' = payload pkt
                             \<and> payload_len pkt' = payload_len pkt"
  using assms
  by (auto simp: parse_switch_def decode_uint_def rd_def rd_bytes_def wr_bytes_def Let_def
           split: if_splits sum.splits)

lemma decode_opt_hdr_error:
  "decode_opt_hdr buf p e b = Inl err \<Longrightarrow> err \<noteq> ENOSPC"
  by (auto simp: decode_opt_hdr_def as_badmsg_def split: sum.splits prod.splits if_splits)

lemma parse_loop_error_keeps:
  "parse_loop buf pkt urlpos pkt_pos option_nr = Inl (e, pkt')
     \<Longrightarrow> e \<noteq> ENOSPC \<and> hdr pkt' = hdr pkt \<and> payload pkt' = payload pkt
         \<and> payload_len pkt' = payload_len pkt"
proof (induction buf pkt urlpos pkt_pos option_nr rule: parse_loop.induct)
  case (1 buf pkt urlpos pkt_pos option_nr)
  from "1.prems" have ne: "pkt_pos \<noteq> length buf"
    by (subst (asm) parse_loop.simps) (simp split: if_splits)
  show ?case
  proof (cases "rd buf pkt_pos")
    case (Inl err)
    with "1.prems" ne show ?thesis
      by (subst (asm) parse_loop.simps) (auto simp: rd_def split: if_splits)
  next
    case (Inr option_byte)
    note rd = Inr
    with "1.prems" ne have nm: "option_byte \<noteq> 0xff"
      by (subst (asm) parse_loop.simps) (auto split: if_splits)
    show ?thesis
    proof (cases "decode_opt_hdr buf (pkt_pos + 1) (length buf) option_byte")
      case (Inl err)
      with "1.prems" ne rd nm have "e = err" and "pkt' = pkt"
        by (subst (asm) parse_loop.simps, simp)+
      with Inl show ?thesis
        using decode_opt_hdr_error by blast
    next
      case (Inr t)
      then obtain option_delta option_len p where
        hdr: "decode_opt_hdr buf (pkt_pos + 1) (length buf) option_byte
                = Inr (option_delta, option_len, p)"
        by (cases t) auto
      show ?thesis
      proof (cases "2147483647 < option_nr + int option_delta")
        case True
        with "1.prems" ne rd nm hdr show ?thesis
          by (subst (asm) parse_loop.simps) simp
      next
        case False
        note no = False
        show ?thesis
        proof (cases "parse_switch buf pkt urlpos p (option_nr + int option_delta) option_len")
          case (Inl x)
          with "1.prems" ne rd nm hdr no have "x = (e, pkt')"
            by (subst (asm) parse_loop.simps) simp
          with Inl parse_switch_keeps [OF Inl] show ?thesis by simp
        next
          case (Inr y)
          then obtain pkt1 urlpos1 where
            sw: "parse_switch buf pkt urlpos p (option_nr + int option_delta) option_len
                   = Inr (pkt1, urlpos1)"
            by (cases y) auto
          with "1.prems" ne rd nm hdr no
          have rec: "parse_loop buf pkt1 urlpos1 (p + option_len) (option_nr + int option_delta)
                       = Inl (e, pkt')"
            by (subst (asm) parse_loop.simps) simp
          have "e \<noteq> ENOSPC \<and> hdr pkt' = hdr pkt1 \<and> payload pkt' = payload pkt1
                  \<and> payload_len pkt' = payload_len pkt1"
            using "1.IH" [OF ne rd nm hdr refl refl no sw refl rec] .
          with parse_switch_keeps [OF sw] show ?thesis by simp
        qed
      qed
    qed
  qed
qed

text \<open>
  C4, amended. When \<open>coap_parse\<close> returns an error it is never \<open>-ENOSPC\<close> (the one
  code is \<open>-EBADMSG\<close>), the header pointer is set, and of the packet only the payload
  is certain not to be populated: the payload pointer is the caller's and the payload
  length is 0. The other fields are written in place as the scan goes.
\<close>

theorem parse_error_leaves_payload_unset:
  assumes "coap_parse url_max pkt buf = Inl (e, pkt')"
  shows "e \<noteq> ENOSPC \<and> hdr pkt' = Some 0 \<and> payload pkt' = payload pkt \<and> payload_len pkt' = 0"
proof (cases "coap_get_token_len buf")
  case (Inl err)
  with assms show ?thesis
    by (auto simp: coap_parse_def coap_get_token_len_def rd_def split: if_splits)
next
  case (Inr tkl)
  with assms show ?thesis
    by (auto simp: coap_parse_def Let_def split: sum.splits if_splits prod.splits
             dest!: parse_loop_error_keeps)
qed

theorem parse_error_leaves_payload_unset_witness:
  "coap_parse 8 (pkt_stale\<lparr>payload := Some 99, payload_len := 5\<rparr>)
       [0x40, 0x01, 0x00, 0x01, 0xB1, 0x61, 0x20]
     = Inl (EBADMSG,
            \<lparr>hdr = Some 0, url = [0x2f, 0x61, 0, 0, 0, 0, 0, 0], token = None,
             options = Some 4, payload = Some 99, payload_len = 0, content_type = 40,
             observe_value = 0xffffffff\<rparr>)
   \<and> EBADMSG \<noteq> ENOSPC"
proof -
  have rejected:
    "coap_parse 8 (pkt_stale\<lparr>payload := Some 99, payload_len := 5\<rparr>)
         [0x40, 0x01, 0x00, 0x01, 0xB1, 0x61, 0x20]
       = Inl (EBADMSG,
              \<lparr>hdr = Some 0, url = [0x2f, 0x61, 0, 0, 0, 0, 0, 0], token = None,
               options = Some 4, payload = Some 99, payload_len = 0, content_type = 40,
               observe_value = 0xffffffff\<rparr>)"
    by code_simp
  show ?thesis
    using parse_error_leaves_payload_unset [OF rejected] rejected by simp
qed

text \<open>
  C5, as stated, fails: a message with TKL = 9, nine token bytes, the option Uri-Path
  \<open>a\<close> and a payload is accepted, with the token at offset 4, the options at 13 and
  the payload at 16.
\<close>

theorem parse_accepts_tkl_9:
  "coap_parse 8 pkt_stale
       [0x49, 0x01, 0x00, 0x01, 1, 2, 3, 4, 5, 6, 7, 8, 9, 0xB1, 0x61, 0xFF, 0x2A]
     = Inr \<lparr>hdr = Some 0, url = [0x2f, 0x61, 0, 0, 0, 0, 0, 0], token = Some 4,
            options = Some 13, payload = Some 16, payload_len = 1, content_type = 40,
            observe_value = 0xffffffff\<rparr>"
  by code_simp

lemma rd_skip: "rd (a @ rest) (length a + i) = rd rest i"
  by (simp add: rd_def nth_append)

lemma rd_bytes_skip: "rd_bytes (a @ rest) (length a + i) n = rd_bytes rest i n"
  by (simp add: rd_bytes_def)

lemma decode_value_skip:
  "decode_value v (a @ rest) (length a + i) (length a + e)
     = (case decode_value v rest i e of
          Inl err \<Rightarrow> Inl err
        | Inr (r, p) \<Rightarrow> Inr (r, length a + p))"
  by (simp add: decode_value_def left_lt_def rd_skip rd_bytes_skip split: sum.splits)

lemma decode_opt_hdr_skip:
  "decode_opt_hdr (a @ rest) (length a + i) (length a + e) b
     = (case decode_opt_hdr rest i e b of
          Inl err \<Rightarrow> Inl err
        | Inr (d, l, p) \<Rightarrow> Inr (d, l, length a + p))"
  by (simp add: decode_opt_hdr_def decode_value_skip split: sum.splits prod.splits)

lemma decode_uint_skip:
  "decode_uint (a @ rest) (length a + i) n = decode_uint rest i n"
  by (simp add: decode_uint_def rd_bytes_skip)

lemma parse_switch_skip:
  "parse_switch (a @ rest) pkt urlpos (length a + i) option_nr option_len
     = parse_switch rest pkt urlpos i option_nr option_len"
  by (simp add: parse_switch_def rd_skip rd_bytes_skip decode_uint_skip)


lemma parse_loop_skip:
  "moved 0 (parse_loop (a @ rest) pkt urlpos (length a + i) option_nr)
     = moved (length a) (parse_loop rest pkt urlpos i option_nr)"
proof (induction rest pkt urlpos i option_nr rule: parse_loop.induct)
  case (1 buf pkt urlpos pkt_pos option_nr)
  show ?case
  proof (cases "pkt_pos = length buf")
    case True
    then show ?thesis
      by (subst (1 2) parse_loop.simps) (simp add: moved_def)
  next
    case False
    note ne = False
    show ?thesis
    proof (cases "rd buf pkt_pos")
      case (Inl err)
      with ne show ?thesis
        by (subst (1 2) parse_loop.simps) (simp add: moved_def rd_skip)
    next
      case (Inr option_byte)
      note rd = Inr
      show ?thesis
      proof (cases "option_byte = 0xff")
        case True
        with ne rd show ?thesis
          by (subst (1 2) parse_loop.simps) (simp add: moved_def rd_skip)
      next
        case False
        note nm = False
        show ?thesis
        proof (cases "decode_opt_hdr buf (pkt_pos + 1) (length buf) option_byte")
          case (Inl err)
          with ne rd nm show ?thesis
            using decode_opt_hdr_skip [of a buf "pkt_pos + 1" "length buf" option_byte]
            by (subst (1 2) parse_loop.simps) (simp add: moved_def rd_skip add.assoc)
        next
          case (Inr t)
          then obtain option_delta option_len p where
            hdr: "decode_opt_hdr buf (pkt_pos + 1) (length buf) option_byte
                    = Inr (option_delta, option_len, p)"
            by (cases t) auto
          then have hdr': "decode_opt_hdr (a @ buf) (length a + pkt_pos + 1) (length a + length buf)
                             option_byte = Inr (option_delta, option_len, length a + p)"
            using decode_opt_hdr_skip [of a buf "pkt_pos + 1" "length buf" option_byte]
            by (simp add: add.assoc)
          show ?thesis
          proof (cases "2147483647 < option_nr + int option_delta")
            case True
            with ne rd nm hdr hdr' show ?thesis
              by (subst (1 2) parse_loop.simps) (simp add: moved_def rd_skip)
          next
            case False
            note no = False
            show ?thesis
            proof (cases "parse_switch buf pkt urlpos p (option_nr + int option_delta) option_len")
              case (Inl x)
              with ne rd nm hdr hdr' no show ?thesis
                using parse_switch_skip [of a buf pkt urlpos p "option_nr + int option_delta" option_len]
                by (subst (1 2) parse_loop.simps) (simp add: moved_def rd_skip)
            next
              case (Inr y)
              then obtain pkt1 urlpos1 where
                sw: "parse_switch buf pkt urlpos p (option_nr + int option_delta) option_len
                       = Inr (pkt1, urlpos1)"
                by (cases y) auto
              have IH: "moved 0 (parse_loop (a @ buf) pkt1 urlpos1 (length a + (p + option_len))
                                   (option_nr + int option_delta))
                          = moved (length a) (parse_loop buf pkt1 urlpos1 (p + option_len)
                                   (option_nr + int option_delta))"
                using "1.IH" [OF ne rd nm hdr refl refl no sw refl] .
              have l: "parse_loop buf pkt urlpos pkt_pos option_nr
                         = parse_loop buf pkt1 urlpos1 (p + option_len) (option_nr + int option_delta)"
                using ne rd nm hdr no sw by (subst parse_loop.simps) simp
              have r: "parse_loop (a @ buf) pkt urlpos (length a + pkt_pos) option_nr
                         = parse_loop (a @ buf) pkt1 urlpos1 (length a + (p + option_len))
                             (option_nr + int option_delta)"
                using ne rd nm hdr' no sw
                  parse_switch_skip [of a buf pkt urlpos p "option_nr + int option_delta" option_len]
                by (subst parse_loop.simps) (simp add: rd_skip add.assoc)
              show ?thesis
                unfolding l r by (rule IH)
            qed
          qed
        qed
      qed
    qed
  qed
qed


lemma parse_switch_ptrs:
  "parse_switch buf (pkt\<lparr>token := tk, options := op\<rparr>) urlpos pkt_pos option_nr option_len
     = (case parse_switch buf pkt urlpos pkt_pos option_nr option_len of
          Inl (e, p) \<Rightarrow> Inl (e, p\<lparr>token := tk, options := op\<rparr>)
        | Inr (p, u) \<Rightarrow> Inr (p\<lparr>token := tk, options := op\<rparr>, u))"
proof -
  have nums: "COAP_OPT_URI_PATH \<noteq> COAP_OPT_CONTENT_FORMAT" "COAP_OPT_URI_PATH \<noteq> COAP_OPT_OBSERVE"
    "COAP_OPT_URI_PATH \<noteq> COAP_OPT_BLOCK2" "COAP_OPT_CONTENT_FORMAT \<noteq> COAP_OPT_OBSERVE"
    "COAP_OPT_CONTENT_FORMAT \<noteq> COAP_OPT_BLOCK2" "COAP_OPT_OBSERVE \<noteq> COAP_OPT_BLOCK2"
    by (simp_all add: COAP_OPT_URI_PATH_def COAP_OPT_CONTENT_FORMAT_def COAP_OPT_OBSERVE_def
          COAP_OPT_BLOCK2_def)
  consider (path) "option_nr = int COAP_OPT_URI_PATH"
    | (cf) "option_nr = int COAP_OPT_CONTENT_FORMAT"
    | (obs) "option_nr = int COAP_OPT_OBSERVE"
    | (blk) "option_nr = int COAP_OPT_BLOCK2"
    | (other) "option_nr \<noteq> int COAP_OPT_URI_PATH" "option_nr \<noteq> int COAP_OPT_CONTENT_FORMAT"
        "option_nr \<noteq> int COAP_OPT_OBSERVE" "option_nr \<noteq> int COAP_OPT_BLOCK2"
    by blast
  then show ?thesis
  proof cases
    case path
    then show ?thesis
      by (cases "rd_bytes buf pkt_pos option_len";
          cases "wr_bytes ((url pkt)[urlpos := 0x2f]) (urlpos + 1) (projr (rd_bytes buf pkt_pos option_len))")
         (simp_all add: parse_switch_def Let_def)
  next
    case cf
    then show ?thesis
      using nums
      by (cases "rd buf pkt_pos"; cases "rd_bytes buf pkt_pos 2")
         (simp_all add: parse_switch_def)
  next
    case obs
    then show ?thesis
      using nums
      by (cases "decode_uint buf pkt_pos option_len") (simp_all add: parse_switch_def)
  next
    case blk
    then show ?thesis
      using nums
      by (cases "decode_uint buf pkt_pos option_len") (simp_all add: parse_switch_def Let_def)
  next
    case other
    then show ?thesis
      by (simp add: parse_switch_def)
  qed
qed

lemma parse_loop_ptrs:
  "parse_loop buf (pkt\<lparr>token := tk, options := op\<rparr>) urlpos pkt_pos option_nr
     = (case parse_loop buf pkt urlpos pkt_pos option_nr of
          Inl (e, p) \<Rightarrow> Inl (e, p\<lparr>token := tk, options := op\<rparr>)
        | Inr (p, pos) \<Rightarrow> Inr (p\<lparr>token := tk, options := op\<rparr>, pos))"
proof (induction buf pkt urlpos pkt_pos option_nr rule: parse_loop.induct)
  case (1 buf pkt urlpos pkt_pos option_nr)
  show ?case
  proof (cases "pkt_pos = length buf")
    case True
    then show ?thesis
      by (subst (1 2) parse_loop.simps) simp
  next
    case False
    note ne = False
    show ?thesis
    proof (cases "rd buf pkt_pos")
      case (Inl err)
      with ne show ?thesis
        by (subst (1 2) parse_loop.simps) simp
    next
      case (Inr option_byte)
      note rd = Inr
      show ?thesis
      proof (cases "option_byte = 0xff")
        case True
        with ne rd show ?thesis
          by (subst (1 2) parse_loop.simps) simp
      next
        case False
        note nm = False
        show ?thesis
        proof (cases "decode_opt_hdr buf (pkt_pos + 1) (length buf) option_byte")
          case (Inl err)
          with ne rd nm show ?thesis
            by (subst (1 2) parse_loop.simps) simp
        next
          case (Inr t)
          then obtain option_delta option_len p where
            hdr: "decode_opt_hdr buf (pkt_pos + 1) (length buf) option_byte
                    = Inr (option_delta, option_len, p)"
            by (cases t) auto
          show ?thesis
          proof (cases "2147483647 < option_nr + int option_delta")
            case True
            with ne rd nm hdr show ?thesis
              by (subst (1 2) parse_loop.simps) simp
          next
            case False
            note no = False
            show ?thesis
            proof (cases "parse_switch buf pkt urlpos p (option_nr + int option_delta) option_len")
              case (Inl x)
              with ne rd nm hdr no show ?thesis
                by (subst (1 2) parse_loop.simps) (simp add: parse_switch_ptrs split: prod.splits)
            next
              case (Inr y)
              then obtain pkt1 urlpos1 where
                sw: "parse_switch buf pkt urlpos p (option_nr + int option_delta) option_len
                       = Inr (pkt1, urlpos1)"
                by (cases y) auto
              have l: "parse_loop buf pkt urlpos pkt_pos option_nr
                         = parse_loop buf pkt1 urlpos1 (p + option_len) (option_nr + int option_delta)"
                using ne rd nm hdr no sw by (subst parse_loop.simps) simp
              have r: "parse_loop buf (pkt\<lparr>token := tk, options := op\<rparr>) urlpos pkt_pos option_nr
                         = parse_loop buf (pkt1\<lparr>token := tk, options := op\<rparr>) urlpos1
                             (p + option_len) (option_nr + int option_delta)"
                using ne rd nm hdr no sw
                by (subst parse_loop.simps) (simp add: parse_switch_ptrs)
              show ?thesis
                unfolding l r using "1.IH" [OF ne rd nm hdr refl refl no sw refl] .
            qed
          qed
        qed
      qed
    qed
  qed
qed

lemma parse_loop_payload:
  "parse_loop buf pkt urlpos pkt_pos option_nr = Inr (p, pos)
     \<Longrightarrow> pos = length buf \<or> payload p = Some pos"
proof (induction buf pkt urlpos pkt_pos option_nr rule: parse_loop.induct)
  case (1 buf pkt urlpos pkt_pos option_nr)
  show ?case
  proof (cases "pkt_pos = length buf")
    case True
    with "1.prems" show ?thesis
      by (subst (asm) parse_loop.simps) simp
  next
    case False
    note ne = False
    show ?thesis
    proof (cases "rd buf pkt_pos")
      case (Inl err)
      with ne "1.prems" show ?thesis
        by (subst (asm) parse_loop.simps) simp
    next
      case (Inr option_byte)
      note rd = Inr
      show ?thesis
      proof (cases "option_byte = 0xff")
        case True
        with ne rd "1.prems" show ?thesis
          by (subst (asm) parse_loop.simps) auto
      next
        case False
        note nm = False
        show ?thesis
        proof (cases "decode_opt_hdr buf (pkt_pos + 1) (length buf) option_byte")
          case (Inl err)
          with ne rd nm "1.prems" show ?thesis
            by (subst (asm) parse_loop.simps) simp
        next
          case (Inr t)
          then obtain option_delta option_len q where
            hdr: "decode_opt_hdr buf (pkt_pos + 1) (length buf) option_byte
                    = Inr (option_delta, option_len, q)"
            by (cases t) auto
          show ?thesis
          proof (cases "2147483647 < option_nr + int option_delta")
            case True
            with ne rd nm hdr "1.prems" show ?thesis
              by (subst (asm) parse_loop.simps) simp
          next
            case False
            note no = False
            show ?thesis
            proof (cases "parse_switch buf pkt urlpos q (option_nr + int option_delta) option_len")
              case (Inl x)
              with ne rd nm hdr no "1.prems" show ?thesis
                by (subst (asm) parse_loop.simps) simp
            next
              case (Inr y)
              then obtain pkt1 urlpos1 where
                sw: "parse_switch buf pkt urlpos q (option_nr + int option_delta) option_len
                       = Inr (pkt1, urlpos1)"
                by (cases y) auto
              with ne rd nm hdr no "1.prems"
              have "parse_loop buf pkt1 urlpos1 (q + option_len) (option_nr + int option_delta)
                      = Inr (p, pos)"
                by (subst (asm) parse_loop.simps) simp
              then show ?thesis
                using "1.IH" [OF ne rd nm hdr refl refl no sw refl] by simp
            qed
          qed
        qed
      qed
    qed
  qed
qed

text \<open>
  C5, amended. \<open>coap_parse\<close> has no check of TKL. For every value \<open>t\<close> of the field
  (0 to 15, so also above 8) and every buffer that holds the header and \<open>t\<close> token
  bytes, whatever follows them, the result is the result for the same message with TKL 0
  and no token, carried over: the same return value, URL, content-format, observe value
  and payload length, the token pointer at offset 4 (NULL for \<open>t = 0\<close>) and the
  options and payload pointers \<open>t\<close> bytes further. So a message is never rejected for
  its TKL.
\<close>

theorem parse_does_not_check_tkl:
  assumes "length tok = unat (h0 AND 0xf)"
  shows "coap_parse url_max pkt (h0 # h1 # h2 # h3 # tok @ rest)
           = with_token (length tok)
               (coap_parse url_max pkt ((h0 AND 0xf0) # h1 # h2 # h3 # rest))"
proof -
  define pkt2 where
    "pkt2 = pkt\<lparr>hdr := Some 0, url := replicate url_max 0, payload_len := 0,
                 observe_value := 0xffffffff\<rparr>"
  define t where "t = length tok"
  define tk where "tk = (if t \<noteq> 0 then Some (4::nat) else None)"
  define o1 where "o1 = (if rest \<noteq> [] then Some (4 + t) else None)"
  define o0 where "o0 = (if rest \<noteq> [] then Some (4::nat) else None)"
  define buf1 where "buf1 = h0 # h1 # h2 # h3 # tok @ rest"
  define buf0 where "buf0 = (h0 AND 0xf0) # h1 # h2 # h3 # rest"
  define R where "R = parse_loop rest pkt2 0 0 0"
  have len1: "length buf1 = 4 + t + length rest" and len0: "length buf0 = 4 + length rest"
    by (simp_all add: buf1_def buf0_def t_def)
  have tkl1: "coap_get_token_len buf1 = Inr t"
    using assms by (simp add: coap_get_token_len_def rd_def t_def buf1_def)
  have "(h0 AND 0xf0) AND 0xf = 0"
    by (simp add: and.assoc)
  then have tkl0: "coap_get_token_len buf0 = Inr 0"
    by (simp add: coap_get_token_len_def rd_def buf0_def)
  have parse1: "coap_parse url_max pkt buf1
      = (case parse_loop buf1 pkt2 0 (4 + t) 0 of
           Inl (e, p) \<Rightarrow> Inl (e, p\<lparr>token := tk, options := o1\<rparr>)
         | Inr (p, pos) \<Rightarrow>
             Inr ((if pos = length buf1 then p\<lparr>payload := Some (length buf1)\<rparr> else p)
                    \<lparr>token := tk, options := o1\<rparr>))"
    by (cases "t = 0")
       (auto simp: coap_parse_def tkl1 Let_def parse_loop_ptrs len1 tk_def o1_def
             simp flip: pkt2_def split: sum.splits)
  have parse0: "coap_parse url_max pkt buf0
      = (case parse_loop buf0 pkt2 0 4 0 of
           Inl (e, p) \<Rightarrow> Inl (e, p\<lparr>token := None, options := o0\<rparr>)
         | Inr (p, pos) \<Rightarrow>
             Inr ((if pos = length buf0 then p\<lparr>payload := Some (length buf0)\<rparr> else p)
                    \<lparr>token := None, options := o0\<rparr>))"
    by (auto simp: coap_parse_def tkl0 Let_def parse_loop_ptrs len0 o0_def
             simp flip: pkt2_def split: sum.splits)
  have four: "Suc (Suc (Suc (Suc n))) = 4 + n" for n
    by simp
  have run1: "moved 0 (parse_loop buf1 pkt2 0 (4 + t) 0) = moved (4 + t) R"
    using parse_loop_skip [of "h0 # h1 # h2 # h3 # tok" rest pkt2 0 0 0]
    by (simp add: R_def t_def buf1_def four)
  have run0: "moved 0 (parse_loop buf0 pkt2 0 4 0) = moved 4 R"
    using parse_loop_skip [of "[h0 AND 0xf0, h1, h2, h3]" rest pkt2 0 0 0]
    by (simp add: R_def buf0_def numeral_eq_Suc)
  have opts: "map_option (\<lambda>i. i + t) o0 = o1"
    by (simp add: o0_def o1_def)
  have wt: "with_token t (Inl (e, q)) = Inl (e, q\<lparr>token := tk, options := map_option (\<lambda>i. i + t) (options q)\<rparr>)"
    "with_token t (Inr q) = Inr (q\<lparr>token := tk, options := map_option (\<lambda>i. i + t) (options q),
                                   payload := map_option (\<lambda>i. i + t) (payload q)\<rparr>)" for e q
    by (simp_all add: with_token_def tk_def)
  show ?thesis
  proof (cases R)
    case (Inl x)
    obtain e q where x: "x = (e, q)" by (cases x)
    from run1 run0 Inl x have
      "parse_loop buf1 pkt2 0 (4 + t) 0 = Inl (e, q)"
      "parse_loop buf0 pkt2 0 4 0 = Inl (e, q)"
      by (auto simp: moved_def split: sum.splits prod.splits)
    then show ?thesis
      unfolding buf1_def [symmetric] buf0_def [symmetric] t_def [symmetric] parse1 parse0
      by (simp add: wt opts)
  next
    case (Inr y)
    then obtain p pos where R: "R = Inr (p, pos)" by (cases y) auto
    from run1 R obtain p1 where
      l1: "parse_loop buf1 pkt2 0 (4 + t) 0 = Inr (p1, 4 + t + pos)"
      and e1: "p1\<lparr>payload := None\<rparr> = p\<lparr>payload := None\<rparr>"
      by (auto simp: moved_def split: sum.splits prod.splits)
    from run0 R obtain p0 where
      l0: "parse_loop buf0 pkt2 0 4 0 = Inr (p0, 4 + pos)"
      and e0: "p0\<lparr>payload := None\<rparr> = p\<lparr>payload := None\<rparr>"
      by (auto simp: moved_def split: sum.splits prod.splits)
    have pay1: "p1\<lparr>payload := v\<rparr> = p\<lparr>payload := v\<rparr>" for v
      using arg_cong [OF e1, of "\<lambda>q. q\<lparr>payload := v\<rparr>"] by simp
    have pay0: "p0\<lparr>payload := v\<rparr> = p\<lparr>payload := v\<rparr>" for v
      using arg_cong [OF e0, of "\<lambda>q. q\<lparr>payload := v\<rparr>"] by simp
    have s1: "(if 4 + t + pos = length buf1 then p1\<lparr>payload := Some (length buf1)\<rparr> else p1)
                = p\<lparr>payload := Some (4 + t + pos)\<rparr>"
    proof (cases "4 + t + pos = length buf1")
      case True
      then show ?thesis using pay1 [of "Some (length buf1)"] by simp
    next
      case False
      with parse_loop_payload [OF l1] have "payload p1 = Some (4 + t + pos)" by simp
      then have "p1 = p1\<lparr>payload := Some (4 + t + pos)\<rparr>" by simp
      with False pay1 [of "Some (4 + t + pos)"] show ?thesis by simp
    qed
    have s0: "(if 4 + pos = length buf0 then p0\<lparr>payload := Some (length buf0)\<rparr> else p0)
                = p\<lparr>payload := Some (4 + pos)\<rparr>"
    proof (cases "4 + pos = length buf0")
      case True
      then show ?thesis using pay0 [of "Some (length buf0)"] by simp
    next
      case False
      with parse_loop_payload [OF l0] have "payload p0 = Some (4 + pos)" by simp
      then have "p0 = p0\<lparr>payload := Some (4 + pos)\<rparr>" by simp
      with False pay0 [of "Some (4 + pos)"] show ?thesis by simp
    qed
    have r1: "coap_parse url_max pkt buf1
                = Inr (p\<lparr>payload := Some (4 + t + pos), token := tk, options := o1\<rparr>)"
      by (simp only: parse1 l1 sum.case prod.case s1)
    have r0: "coap_parse url_max pkt buf0
                = Inr (p\<lparr>payload := Some (4 + pos), token := None, options := o0\<rparr>)"
      by (simp only: parse0 l0 sum.case prod.case s0)
    show ?thesis
      unfolding buf1_def [symmetric] buf0_def [symmetric] t_def [symmetric] r1 r0
      by (simp add: wt opts add.commute)
  qed
qed

theorem parse_does_not_check_tkl_witness:
  "coap_parse 8 pkt_stale
       ([0x4F, 0x01, 0x00, 0x01] @ [1, 2, 3, 4, 5, 6, 7, 8, 9, 10, 11, 12, 13, 14, 15]
          @ [0xB1, 0x61, 0xFF, 0x2A])
     = Inr \<lparr>hdr = Some 0, url = [0x2f, 0x61, 0, 0, 0, 0, 0, 0], token = Some 4,
            options = Some 19, payload = Some 22, payload_len = 1, content_type = 40,
            observe_value = 0xffffffff\<rparr>"
proof -
  have tokenless:
    "coap_parse 8 pkt_stale [0x40, 0x01, 0x00, 0x01, 0xB1, 0x61, 0xFF, 0x2A]
       = Inr \<lparr>hdr = Some 0, url = [0x2f, 0x61, 0, 0, 0, 0, 0, 0], token = None,
              options = Some 4, payload = Some 7, payload_len = 1, content_type = 40,
              observe_value = 0xffffffff\<rparr>"
    by code_simp
  show ?thesis
    using parse_does_not_check_tkl
            [of "[1, 2, 3, 4, 5, 6, 7, 8, 9, 10, 11, 12, 13, 14, 15]" "0x4F" 8 pkt_stale
                "0x01" "0x00" "0x01" "[0xB1, 0x61, 0xFF, 0x2A]"]
    by (simp add: tokenless with_token_def)
qed

section \<open>Block size negotiation\<close>

lemmas scan_defs =
  coap_find_option_def find_loop.simps parse_opt_def decode_optlen_def rd_def rd_bytes_def
  be_val_def ptr_ge_def COAP_OPT_BLOCK2_def

lemma be_val_bound:
  assumes "length bs \<le> 3"
  shows "unat (be_val bs) < 2 ^ 24"
proof -
  have "take_bit 24 (be_val bs) = be_val bs"
  proof (cases bs)
    case Nil
    then show ?thesis by (simp add: be_val_def)
  next
    case (Cons a as)
    note c1 = Cons
    show ?thesis
    proof (cases as)
      case Nil
      with c1 show ?thesis
        by (auto simp: be_val_def bit_eq_iff bit_simps dest: bit_imp_le_length)
    next
      case (Cons b bs')
      note c2 = Cons
      show ?thesis
      proof (cases bs')
        case Nil
        with c1 c2 show ?thesis
          by (auto simp: be_val_def bit_eq_iff bit_simps dest: bit_imp_le_length)
      next
        case (Cons c cs)
        with c1 c2 assms have "cs = []" by simp
        with c1 c2 Cons show ?thesis
          by (auto simp: be_val_def bit_eq_iff bit_simps dest: bit_imp_le_length)
      qed
    qed
  qed
  then have "unat (be_val bs) = unat (take_bit 24 (be_val bs))" by simp
  also have "\<dots> < 2 ^ 24"
    using take_bit_nat_less_exp [of 24 "unat (be_val bs)"]
    by (simp add: unsigned_take_bit_eq)
  finally show ?thesis .
qed

lemma decode_uint_bound:
  assumes "decode_uint buf p n = Inr v" and "n < 4"
  shows "unat v < 2 ^ 24"
proof -
  from assms obtain bs where "v = be_val bs" and "length bs \<le> 3"
    by (auto simp: decode_uint_def rd_bytes_def split: if_splits sum.splits)
  then show ?thesis using be_val_bound [of bs] by simp
qed

text \<open>
  C7. When the scanner finds a Block2 option in the request, of at most 3 value bytes as
  the parser admits, with the value \<open>v\<close> (NUM = v div 16, SZX = v mod 8), the block
  size is the minimum of the requested size \<open>2 ^ (SZX + 4)\<close> and the configured maximum
  \<open>2 ^ szx_max\<close>, the window is \<open>[NUM * size, NUM * size + size)\<close>, without
  wrap-around, and the cursor is 0.
\<close>

theorem blockwise_init_negotiates:
  fixes v :: "32 word" and szx_max NUM bs :: nat
  defines "NUM \<equiv> unat v div 16"
    and "bs \<equiv> min (2 ^ (unat v mod 8 + 4)) (2 ^ szx_max)"
  assumes found: "coap_find_option buf (payload pkt) (options pkt) opt
                    (word_of_nat COAP_OPT_BLOCK2) = Inr (Some p, opt')"
    and val: "decode_uint buf (opt_val opt') (unat (opt_len opt')) = Inr v"
    and len: "unat (opt_len opt') < 4"
    and max: "szx_max < 31"
  shows "coap_blockwise_init szx_max buf pkt opt
           = Inr \<lparr>start_pos = word_of_nat (NUM * bs),
                  end_pos = word_of_nat (NUM * bs + bs),
                  cur_pos = 0\<rparr>
         \<and> NUM * bs + bs < 2 ^ 32"
proof -
  define e where "e = min (unat v mod 8 + 4) szx_max"
  have vb: "unat v < 2 ^ 24"
    using decode_uint_bound [OF val len] .
  have szx: "unat (ucast (v AND COAP_BLOCKWISE_SZX_MASK) + 4 :: 8 word) = unat v mod 8 + 4"
  proof -
    have "v AND 7 = take_bit 3 v"
      by (simp add: take_bit_eq_mask mask_eq_exp_minus_1)
    then have "unat (v AND 7) = unat v mod 8"
      by (simp add: take_bit_eq_mod unat_mod)
    then have "unat (ucast (v AND 7) :: 8 word) = unat v mod 8"
      by (simp add: unsigned_ucast_eq take_bit_eq_mod)
    then show ?thesis
      by (simp add: COAP_BLOCKWISE_SZX_MASK_def unat_word_ariths)
  qed
  have max8: "unat (word_of_nat szx_max :: 8 word) = szx_max"
    using max by (simp add: unat_of_nat)
  have bs: "bs = 2 ^ e"
    by (simp add: bs_def e_def min_def)
  have num: "drop_bit COAP_BLOCKWISE_NUM_OFF v = word_of_nat NUM"
    by (simp add: NUM_def COAP_BLOCKWISE_NUM_OFF_def drop_bit_eq_div word_arith_nat_div)
  have "e \<le> 11" by (simp add: e_def)
  then have "(2::nat) ^ e \<le> 2 ^ 11"
    by (intro power_increasing) simp_all
  moreover have "NUM < 2 ^ 20"
    using vb by (simp add: NUM_def)
  ultimately have "NUM * 2 ^ e + 2 ^ e \<le> 2 ^ 20 * 2 ^ 11"
    by (metis Suc_leI mult_Suc mult_le_mono add.commute)
  then have bound: "NUM * bs + bs < 2 ^ 32"
    by (simp add: bs)
  have "coap_blockwise_init szx_max buf pkt opt
          = Inr \<lparr>start_pos = push_bit e (word_of_nat NUM * 1),
                 end_pos = push_bit e (word_of_nat NUM * 1) + push_bit e 1,
                 cur_pos = 0\<rparr>"
    by (simp add: coap_blockwise_init_def found val Let_def szx max8 num e_def min_def
          del: mult_1_right)
  also have "push_bit e (word_of_nat NUM * 1) = (word_of_nat (NUM * bs) :: 32 word)"
    by (simp add: push_bit_eq_mult bs)
  also have "word_of_nat (NUM * bs) + push_bit e 1 = (word_of_nat (NUM * bs + bs) :: 32 word)"
    by (simp add: push_bit_eq_mult bs)
  finally show ?thesis
    using bound by simp
qed

theorem blockwise_init_negotiates_witness:
  "coap_parse 8 pkt_stale msg_block2_req = Inr pkt_block2_req
   \<and> coap_blockwise_init 6 msg_block2_req pkt_block2_req opt_blank
       = Inr \<lparr>start_pos = 128, end_pos = 192, cur_pos = 0\<rparr>"
proof -
  have found: "coap_find_option msg_block2_req (payload pkt_block2_req) (options pkt_block2_req)
                 opt_blank (word_of_nat COAP_OPT_BLOCK2)
               = Inr (Some 7, \<lparr>opt_delta = 23, opt_len = 1, opt_val = 6\<rparr>)"
    by (simp add: scan_defs msg_block2_req_def pkt_block2_req_def opt_blank_def)
  have val: "decode_uint msg_block2_req (opt_val \<lparr>opt_delta = 23, opt_len = 1, opt_val = 6\<rparr>)
               (unat (opt_len \<lparr>opt_delta = 23, opt_len = 1, opt_val = 6\<rparr>)) = Inr 0x26"
    by (simp add: decode_uint_def rd_bytes_def be_val_def msg_block2_req_def)
  have parsed: "coap_parse 8 pkt_stale msg_block2_req = Inr pkt_block2_req"
    unfolding msg_block2_req_def pkt_block2_req_def by code_simp
  show ?thesis
    using blockwise_init_negotiates [OF found val, of 6] parsed by simp
qed

text \<open>
  C10. When the scanner finds no Block2 option, the cursor is the first block at the
  configured maximum size: start 0, end \<open>2 ^ szx_max\<close>, cur 0.
\<close>

theorem blockwise_init_without_block2:
  assumes "coap_find_option buf (payload pkt) (options pkt) opt (word_of_nat COAP_OPT_BLOCK2)
             = Inr (None, opt')"
    and "szx_max < 31"
  shows "coap_blockwise_init szx_max buf pkt opt
           = Inr \<lparr>start_pos = 0, end_pos = 2 ^ szx_max, cur_pos = 0\<rparr>
         \<and> unat (2 ^ szx_max :: 32 word) = 2 ^ szx_max"
proof -
  from assms(2) have u: "unat (word_of_nat szx_max :: 8 word) = szx_max"
    by (simp add: unat_of_nat)
  have "(2::nat) ^ szx_max < 2 ^ 32"
    using assms(2) by (intro power_strict_increasing) simp_all
  then have "unat (2 ^ szx_max :: 32 word) = 2 ^ szx_max"
    by (intro of_nat_inverse) simp_all
  then show ?thesis
    using assms(1) by (simp add: coap_blockwise_init_def u Let_def push_bit_eq_mult)
qed

theorem blockwise_init_without_block2_witness:
  "coap_parse 8 pkt_stale msg_path_a = Inr pkt_path_a
   \<and> coap_blockwise_init 6 msg_path_a pkt_path_a opt_blank
       = Inr \<lparr>start_pos = 0, end_pos = 64, cur_pos = 0\<rparr>"
proof -
  have nf: "coap_find_option msg_path_a (payload pkt_path_a) (options pkt_path_a)
              opt_blank (word_of_nat COAP_OPT_BLOCK2)
            = Inr (None, \<lparr>opt_delta = 11, opt_len = 1, opt_val = 5\<rparr>)"
    by (simp add: scan_defs msg_path_a_def pkt_path_a_def opt_blank_def)
  have parsed: "coap_parse 8 pkt_stale msg_path_a = Inr pkt_path_a"
    unfolding msg_path_a_def pkt_path_a_def by code_simp
  show ?thesis
    using blockwise_init_without_block2 [OF nf, of 6] parsed by simp
qed

section \<open>The scanner's early exit\<close>
















section \<open>URI options\<close>

text \<open>
  C9, as stated, fails: for the string \<open>ab\<close>, which has the single segment \<open>ab\<close>,
  the code emits one option with the value \<open>b\<close>.
\<close>

theorem put_option_uri_drops_first_char:
  "coap_put_option_uri 0 [0x61, 0x62] 11 = Inr [0xB1, 0x62]
   \<and> put_uri_spec 0 [0x61, 0x62] 11 = [0xB2, 0x61, 0x62]"
  by (simp add: put_uri_spec_def option_spec_def ext_nibble_def ext_bytes_def
        COAP_OPT_URI_PATH_def)
     code_simp

lemma strlen_no_nul: "0 \<notin> set uri \<Longrightarrow> strlen uri = length uri"
proof -
  assume "0 \<notin> set uri"
  then have "takeWhile (\<lambda>c. c \<noteq> 0) uri = uri"
    by (intro takeWhile_eq_all_conv [THEN iffD2]) auto
  then show ?thesis
    by (simp add: strlen_def c_str_def takeWhile_append)
qed

lemma split_on_seg:
  "split_on sep xs =
     takeWhile (\<lambda>c. c \<noteq> sep) xs #
       (case dropWhile (\<lambda>c. c \<noteq> sep) xs of [] \<Rightarrow> [] | c # r \<Rightarrow> split_on sep r)"
proof (induction xs)
  case Nil
  then show ?case by simp
next
  case (Cons x xs)
  then show ?case
    by (cases "split_on sep xs") auto
qed

lemma uri_inner_scan:
  assumes "0 \<notin> set uri" and "p \<le> length uri"
  shows "uri_inner uri sep p (Suc (length uri - p))
           = Inr (p + length (takeWhile (\<lambda>c. c \<noteq> sep) (drop p uri)),
                  length uri - (p + length (takeWhile (\<lambda>c. c \<noteq> sep) (drop p uri))))"
  using assms(2)
proof (induction "length uri - p" arbitrary: p)
  case 0
  then have "p = length uri" by simp
  then show ?case
    by (simp add: rd_def c_str_def)
next
  case (Suc n)
  then have lt: "p < length uri" by simp
  then have rd: "rd (c_str uri) p = Inr (uri ! p)"
    by (simp add: rd_def c_str_def nth_append)
  from lt assms(1) have nz: "uri ! p \<noteq> 0"
    by (metis nth_mem)
  from lt have dr: "drop p uri = uri ! p # drop (Suc p) uri"
    by (simp add: Cons_nth_drop_Suc)
  from lt have sl: "length uri - p = Suc (length uri - Suc p)"
    by simp
  show ?case
  proof (cases "uri ! p = sep")
    case True
    then show ?thesis
      using rd dr sl by simp
  next
    case False
    have "uri_inner uri sep (Suc p) (Suc (length uri - Suc p))
            = Inr (Suc p + length (takeWhile (\<lambda>c. c \<noteq> sep) (drop (Suc p) uri)),
                   length uri - (Suc p + length (takeWhile (\<lambda>c. c \<noteq> sep) (drop (Suc p) uri))))"
      using Suc.hyps(2) lt by (intro Suc.hyps(1)) simp_all
    with False nz show ?thesis
      using rd dr sl by simp
  qed
qed

lemma uri_outer_segments:
  assumes "0 \<notin> set uri" and "lastonum \<le> optnum" and "uripos \<le> length uri"
  shows "uri_outer uri sep lastonum optnum uripos (length uri - uripos) out
           = Inr (out @ seg_bytes lastonum optnum
                    (filter (\<lambda>seg. seg \<noteq> []) (split_on sep (drop (Suc uripos) uri))))"
  using assms(2,3)
proof (induction "length uri - uripos" arbitrary: uripos lastonum out rule: less_induct)
  case less
  show ?case
  proof (cases "uripos = length uri")
    case True
    then show ?thesis
      by (subst uri_outer.simps) simp
  next
    case False
    with less.prems have lt: "uripos < length uri" by simp
    define part where "part = takeWhile (\<lambda>c. c \<noteq> sep) (drop (Suc uripos) uri)"
    define q where "q = Suc uripos + length part"
    have qle: "q \<le> length uri"
      using length_takeWhile_le [of "\<lambda>c. c \<noteq> sep" "drop (Suc uripos) uri"] lt
      by (simp add: q_def part_def)
    have inner: "uri_inner uri sep (uripos + 1) (length uri - uripos) = Inr (q, length uri - q)"
      using uri_inner_scan [OF assms(1), of "Suc uripos" sep] lt
      by (simp add: q_def part_def Suc_diff_Suc)
    have part_rd: "part \<noteq> [] \<Longrightarrow> rd_bytes (c_str uri) (uripos + 1) (q - (uripos + 1)) = Inr part"
    proof -
      have "take (length part) (drop (Suc uripos) uri) = part"
        unfolding part_def by (metis takeWhile_eq_take)
      moreover have "Suc uripos + length part \<le> Suc (length uri)"
        using qle by (simp add: q_def)
      ultimately show ?thesis
        using qle by (simp add: rd_bytes_def c_str_def q_def)
    qed
    have rest: "filter (\<lambda>seg. seg \<noteq> []) (split_on sep (drop (Suc uripos) uri))
                  = filter (\<lambda>seg. seg \<noteq> []) (part # split_on sep (drop (Suc q) uri))"
    proof (cases "dropWhile (\<lambda>c. c \<noteq> sep) (drop (Suc uripos) uri)")
      case Nil
      then have "length part = length (drop (Suc uripos) uri)"
        by (metis part_def takeWhile_dropWhile_id append_Nil2)
      then have "drop (Suc q) uri = []"
        using lt by (simp add: q_def)
      moreover have "split_on sep (drop (Suc uripos) uri) = [part]"
        using split_on_seg [of sep "drop (Suc uripos) uri"] unfolding Nil part_def by simp
      ultimately show ?thesis by simp
    next
      case (Cons c r)
      have "drop (length part) (drop (Suc uripos) uri) = c # r"
        unfolding part_def Cons [symmetric] by (metis dropWhile_eq_drop)
      then have "drop q uri = c # r"
        by (simp add: q_def add.commute)
      then have "drop (Suc q) uri = r"
        by (metis drop_Suc tl_drop list.sel(3))
      moreover have "split_on sep (drop (Suc uripos) uri) = part # split_on sep r"
        using split_on_seg [of sep "drop (Suc uripos) uri"] unfolding Cons part_def by simp
      ultimately show ?thesis by simp
    qed
    have IH: "uri_outer uri sep l optnum q (length uri - q) o'
                = Inr (o' @ seg_bytes l optnum
                         (filter (\<lambda>seg. seg \<noteq> []) (split_on sep (drop (Suc q) uri))))"
      if "l \<le> optnum" for l o'
      using that qle lt by (intro less.hyps) (simp_all add: q_def)
    show ?thesis
    proof (cases "part = []")
      case True
      then have "q - (uripos + 1) = 0" by (simp add: q_def)
      then show ?thesis
        using lt inner IH [OF less.prems(1), of out] rest True
        by (subst uri_outer.simps) simp
    next
      case False
      then have "q - (uripos + 1) \<noteq> 0" and "q - (uripos + 1) = length part"
        by (simp_all add: q_def)
      then show ?thesis
        using lt inner IH [of optnum] rest False part_rd [OF False] less.prems(1)
        by (subst uri_outer.simps) (simp add: coap_put_option_def)
    qed
  qed
qed

lemma put_option_uri_tail:
  assumes "0 \<notin> set uri" and "lastonum \<le> optnum"
  shows "coap_put_option_uri lastonum uri optnum
           = Inr (seg_bytes lastonum optnum
                    (filter (\<lambda>seg. seg \<noteq> [])
                       (split_on (if optnum = word_of_nat COAP_OPT_URI_PATH then 0x2f else 0x26)
                          (tl uri))))"
proof (cases uri)
  case Nil
  then show ?thesis
    by (simp add: coap_put_option_uri_def strlen_def c_str_def)
next
  case (Cons c cs)
  with assms show ?thesis
    using uri_outer_segments [OF assms, of 0 _ "[]"]
    by (simp add: coap_put_option_uri_def strlen_no_nul Let_def)
qed

lemma hdr_byte:
  fixes d l :: "32 word"
  assumes "d < 16" and "l < 16"
  shows "(ucast (push_bit 4 d OR l) :: byte) = word_of_nat (16 * unat d + unat l)"
proof -
  define B :: byte where "B = ucast (push_bit 4 d OR l)"
  have hi: "unat B div 16 = unat d"
    using nibble_hi [OF assms] by (simp add: B_def drop_bit_eq_div unat_div)
  have "B AND 0xf = take_bit 4 B"
    by (simp add: take_bit_eq_mask mask_eq_exp_minus_1)
  then have "unat (B AND 0xf) = unat B mod 16"
    by (simp add: take_bit_eq_mod unat_mod)
  then have lo: "unat B mod 16 = unat l"
    using nibble_lo [OF assms(2), of d] by (simp add: B_def)
  have "unat B = 16 * (unat B div 16) + unat B mod 16"
    by simp
  then have "unat B = 16 * unat d + unat l"
    using hi lo by simp
  then have "word_of_nat (unat B) = (word_of_nat (16 * unat d + unat l) :: byte)"
    by simp
  then show ?thesis
    by (simp add: B_def)
qed

lemma put_option_as_spec:
  fixes lastonum onum :: "16 word"
  assumes le: "lastonum \<le> onum" and len: "length odata < 13"
    and dom: "unat onum - unat lastonum \<le> 13 \<or> 269 \<le> unat onum - unat lastonum"
  shows "put_odelta (ucast lastonum) (ucast onum) (word_of_nat (length odata)) @ odata
           = option_spec (unat lastonum) (unat onum) odata"
proof -
  define D where "D = unat onum - unat lastonum"
  define d :: "32 word" where "d = ucast onum - ucast lastonum"
  define l :: "32 word" where "l = word_of_nat (length odata)"
  have u16: "unat (ucast x :: 32 word) = unat x" for x :: "16 word"
    by (simp add: unsigned_ucast_eq take_bit_nat_eq_self_iff)
       (rule less_trans [OF unsigned_less], simp)
  have "(ucast lastonum :: 32 word) \<le> ucast onum"
    using le by (simp add: word_le_nat_alt u16)
  then have d: "unat d = D"
    by (simp add: d_def D_def unat_sub u16)
  have l: "unat l = length odata"
    using len by (simp add: l_def unat_of_nat)
  have l16: "l < 16"
    using len by (simp add: word_less_nat_alt l)
  have nl: "ext_nibble (length odata) = length odata" "ext_bytes (length odata) = []"
    using len by (simp_all add: ext_nibble_def ext_bytes_def)
  from dom consider (small) "D < 13" | (thirteen) "D = 13" | (large) "269 \<le> D"
    unfolding D_def by linarith
  then show ?thesis
  proof cases
    case small
    then have d13: "d < 13" and d16: "d < 16"
      by (simp_all add: word_less_nat_alt d)
    show ?thesis
      using small d13 hdr_byte [OF d16 l16] len
      by (simp add: put_odelta_def option_spec_def nl ext_nibble_def ext_bytes_def d l Let_def
            flip: d_def D_def l_def)
  next
    case thirteen
    then have d13: "d = 13"
      using d by (simp add: word_unat_eq_iff)
    have "(ucast (push_bit 4 13 OR l) :: byte) = word_of_nat (16 * 13 + length odata)"
      using hdr_byte [of 13 l] l16 l by simp
    then show ?thesis
      using thirteen len
      by (simp add: put_odelta_def option_spec_def nl ext_nibble_def ext_bytes_def d13 Let_def
            flip: d_def D_def l_def)
  next
    case large
    then have nd: "\<not> d < 13" "d \<noteq> 13"
      using d by (auto simp: word_less_nat_alt word_unat_eq_iff)
    have hb: "(ucast (push_bit 4 14 OR l) :: byte) = word_of_nat (16 * 14 + length odata)"
      using hdr_byte [of 14 l] l16 l by simp
    have "D < 2 ^ 16"
      unfolding D_def using unsigned_less [of onum, where 'a = nat]
      by (simp add: less_imp_diff_less)
    have sub: "unat (d - 269) = D - 269"
      using large d by (simp add: unat_sub word_le_nat_alt)
    define tmp :: "16 word" where "tmp = ucast (d - 269)"
    have tmp: "unat tmp = D - 269"
      using large \<open>D < 2 ^ 16\<close>
      by (simp add: tmp_def unsigned_ucast_eq sub take_bit_nat_eq_self_iff)
    have hi: "(ucast (drop_bit 8 tmp) :: byte) = word_of_nat ((D - 269) div 256)"
    proof -
      have "unat (drop_bit 8 tmp) = (D - 269) div 256"
        by (simp add: drop_bit_eq_div unat_div tmp)
      then have "word_of_nat (unat (drop_bit 8 tmp)) = (word_of_nat ((D - 269) div 256) :: byte)"
        by simp
      then show ?thesis by simp
    qed
    have lo: "(ucast tmp :: byte) = word_of_nat ((D - 269) mod 256)"
    proof -
      have "word_of_nat (unat tmp) = (word_of_nat ((D - 269) mod 256) :: byte)"
        by (simp add: tmp word_of_nat_eq_iff take_bit_eq_mod)
      then show ?thesis by simp
    qed
    show ?thesis
      using large nd hb hi lo len
      by (simp add: put_odelta_def option_spec_def nl ext_nibble_def ext_bytes_def Let_def
            flip: d_def D_def l_def tmp_def)
  qed
qed

lemma seg_bytes_as_spec:
  fixes lastonum optnum :: "16 word"
  assumes "lastonum \<le> optnum"
    and "unat optnum - unat lastonum \<le> 13 \<or> 269 \<le> unat optnum - unat lastonum"
    and "\<forall>seg \<in> set segs. length seg < 13"
  shows "seg_bytes lastonum optnum segs = put_segments_spec (unat lastonum) (unat optnum) segs"
  using assms
proof (induction segs arbitrary: lastonum)
  case Nil
  then show ?case by simp
next
  case (Cons seg segs)
  have "seg_bytes optnum optnum segs = put_segments_spec (unat optnum) (unat optnum) segs"
    using Cons.prems(3) by (intro Cons.IH) simp_all
  moreover have "put_odelta (ucast lastonum) (ucast optnum) (word_of_nat (length seg)) @ seg
                   = option_spec (unat lastonum) (unat optnum) seg"
    using Cons.prems by (intro put_option_as_spec) simp_all
  ultimately show ?case by simp
qed

text \<open>
  C9, amended. For a string without NUL that is empty or begins with the separator
  (\<open>/\<close> for Uri-Path, \<open>&\<close> otherwise), whose segments are shorter than 13 bytes, with
  \<open>lastonum \<le> optnum\<close> and a first delta \<open>optnum - lastonum\<close> of at most 13 or at
  least 269, the code emits exactly one option per non-empty segment, encoded as the
  wire format has it, the first with the delta from \<open>lastonum\<close>, the others with
  delta zero, and none for an empty segment. (The first character of the string is
  skipped without being looked at.)
\<close>

theorem put_option_uri_leading_separator:
  fixes lastonum optnum :: "16 word"
  assumes "0 \<notin> set uri" and "lastonum \<le> optnum"
    and "uri = [] \<or> hd uri = (if optnum = word_of_nat COAP_OPT_URI_PATH then 0x2f else 0x26)"
    and "unat optnum - unat lastonum \<le> 13 \<or> 269 \<le> unat optnum - unat lastonum"
    and "\<forall>seg \<in> set (split_on (if optnum = word_of_nat COAP_OPT_URI_PATH then 0x2f else 0x26)
                            uri). length seg < 13"
  shows "coap_put_option_uri lastonum uri optnum
           = Inr (put_uri_spec (unat lastonum) uri (unat optnum))"
proof -
  define sep :: byte where
    "sep = (if optnum = word_of_nat COAP_OPT_URI_PATH then 0x2f else 0x26)"
  have "unat (word_of_nat COAP_OPT_URI_PATH :: 16 word) = COAP_OPT_URI_PATH"
    by (simp add: COAP_OPT_URI_PATH_def)
  then have "(unat optnum = COAP_OPT_URI_PATH) = (optnum = word_of_nat COAP_OPT_URI_PATH)"
    by (metis word_unat_eq_iff)
  then have sep': "(if unat optnum = COAP_OPT_URI_PATH then 0x2f else 0x26) = sep"
    by (simp add: sep_def)
  have segs: "filter (\<lambda>seg. seg \<noteq> []) (split_on sep (tl uri))
                = filter (\<lambda>seg. seg \<noteq> []) (split_on sep uri)"
    using assms(3) by (cases uri) (simp_all add: sep_def)
  have "\<forall>seg \<in> set (filter (\<lambda>seg. seg \<noteq> []) (split_on sep uri)). length seg < 13"
    using assms(5) by (simp add: sep_def)
  then have "seg_bytes lastonum optnum (filter (\<lambda>seg. seg \<noteq> []) (split_on sep uri))
               = put_segments_spec (unat lastonum) (unat optnum)
                   (filter (\<lambda>seg. seg \<noteq> []) (split_on sep uri))"
    by (intro seg_bytes_as_spec assms(2) assms(4))
  then show ?thesis
    using put_option_uri_tail [OF assms(1,2)] segs
    by (simp add: put_uri_spec_def sep' flip: sep_def)
qed

theorem put_option_uri_leading_separator_witness:
  "coap_put_option_uri 0 [0x2f, 0x61, 0x2f, 0x2f, 0x62, 0x63] 11
     = Inr [0xB1, 0x61, 0x02, 0x62, 0x63]"
  using put_option_uri_leading_separator [of "[0x2f, 0x61, 0x2f, 0x2f, 0x62, 0x63]" 0 11]
  by (simp add: put_uri_spec_def option_spec_def ext_nibble_def ext_bytes_def
        COAP_OPT_URI_PATH_def)

end
